theory Spec2Isabelle
  imports Complex_Main "HOL-Library.AList" "HOL-Library.List_Lexorder" "HOL-Library.Char_ord"
    "HOL-Library.Code_Target_Numeral"
begin

section \<open>Numbers: decimal.js values and JavaScript numbers\<close>

text \<open>
  The TypeScript sources compute with \<^verbatim>\<open>Decimal\<close> objects of the decimal.js library
  (\<^verbatim>\<open>"decimal.js": "^10.4.3"\<close> in \<^verbatim>\<open>backend/package.json\<close>). No source file changes the
  library's configuration, so its defaults apply: every arithmetic operation
  (\<^verbatim>\<open>plus\<close>, \<^verbatim>\<open>minus\<close>, \<^verbatim>\<open>times\<close>, \<^verbatim>\<open>div\<close>) returns its exact result rounded to
  \<^verbatim>\<open>precision = 20\<close> significant digits with \<^verbatim>\<open>rounding = ROUND_HALF_UP\<close> (nearest, ties away
  from zero). The constructor \<^verbatim>\<open>new Decimal(v)\<close> does not round. A finite value is modelled
  by the rational number it denotes; the library's exponent limits (\<^verbatim>\<open>maxE = 9e15\<close>) and the
  sign of zero are not modelled.
\<close>

function ndigits :: "nat \<Rightarrow> nat \<Rightarrow> nat" where
  "ndigits b n = (if b < 2 \<or> n < b then 1 else Suc (ndigits b (n div b)))"
  by pat_completeness auto
termination
  by (relation "measure (\<lambda>(b, n). n)") auto

declare ndigits.simps [simp del]

text \<open>
  \<open>sig_exponent b x\<close> is, for \<open>0 < x\<close>, the exponent \<open>e\<close> with \<open>b ^ e \<le> x < b ^ (e + 1)\<close>:
  the position of the leading digit of \<open>x\<close> in base \<open>b\<close>.
\<close>

definition sig_exponent :: "nat \<Rightarrow> rat \<Rightarrow> int" where
  "sig_exponent b x =
     (if 1 \<le> x then int (ndigits b (nat \<lfloor>x\<rfloor>)) - 1
      else - int (ndigits b (nat (\<lceil>1 / x\<rceil> - 1))))"

definition round_half_up :: "rat \<Rightarrow> int" where
  "round_half_up q = \<lfloor>q + 1 / 2\<rfloor>"

definition round_half_even :: "rat \<Rightarrow> int" where
  "round_half_even q =
     (let f = \<lfloor>q\<rfloor>; d = q - of_int f
      in if d < 1 / 2 then f else if 1 / 2 < d then f + 1 else if even f then f else f + 1)"

text \<open>The number of significant digits kept by decimal.js (\<^verbatim>\<open>Decimal.precision\<close>, default 20).\<close>

definition precision :: int where
  "precision = 20"

definition round_pos :: "rat \<Rightarrow> rat" where
  "round_pos x =
     (let s = 10 powi (sig_exponent 10 x - (precision - 1))
      in of_int (round_half_up (x / s)) * s)"

definition round_sd :: "rat \<Rightarrow> rat" where
  "round_sd x = (if x = 0 then 0 else if 0 < x then round_pos x else - round_pos (- x))"

datatype decimal = Finite rat | Infinity | NegInfinity | NaN

fun dneg :: "decimal \<Rightarrow> decimal" where
  "dneg (Finite x) = Finite (- x)"
| "dneg Infinity = NegInfinity"
| "dneg NegInfinity = Infinity"
| "dneg NaN = NaN"

fun plus_d :: "decimal \<Rightarrow> decimal \<Rightarrow> decimal" where
  "plus_d (Finite x) (Finite y) = Finite (round_sd (x + y))"
| "plus_d NaN _ = NaN"
| "plus_d _ NaN = NaN"
| "plus_d Infinity NegInfinity = NaN"
| "plus_d NegInfinity Infinity = NaN"
| "plus_d Infinity _ = Infinity"
| "plus_d NegInfinity _ = NegInfinity"
| "plus_d _ Infinity = Infinity"
| "plus_d _ NegInfinity = NegInfinity"

definition minus_d :: "decimal \<Rightarrow> decimal \<Rightarrow> decimal" where
  "minus_d x y = plus_d x (dneg y)"

text \<open>The sign of a value: \<open>1\<close>, \<open>-1\<close>, or \<open>0\<close> for zero and \<open>NaN\<close>.\<close>

fun dsign :: "decimal \<Rightarrow> int" where
  "dsign (Finite x) = (if x < 0 then - 1 else if x = 0 then 0 else 1)"
| "dsign Infinity = 1"
| "dsign NegInfinity = - 1"
| "dsign NaN = 0"

definition signed_infinity :: "int \<Rightarrow> decimal" where
  "signed_infinity s = (if s < 0 then NegInfinity else Infinity)"

fun times_d :: "decimal \<Rightarrow> decimal \<Rightarrow> decimal" where
  "times_d (Finite x) (Finite y) = Finite (round_sd (x * y))"
| "times_d NaN _ = NaN"
| "times_d _ NaN = NaN"
| "times_d x y =
     (if dsign x = 0 \<or> dsign y = 0 then NaN else signed_infinity (dsign x * dsign y))"

text \<open>
  Division: \<open>NaN\<close> when both operands are zero or both infinite, zero when a finite
  value is divided by an infinity, an infinity when the divisor is zero. The model has
  one zero: decimal.js gives the quotient by a negative zero the opposite sign, so
  the results below that divide by an input keep that input different from zero.
\<close>

fun div_d :: "decimal \<Rightarrow> decimal \<Rightarrow> decimal" where
  "div_d (Finite x) (Finite y) =
     (if y = 0 then (if x = 0 then NaN else signed_infinity (dsign (Finite x)))
      else Finite (round_sd (x / y)))"
| "div_d NaN _ = NaN"
| "div_d _ NaN = NaN"
| "div_d (Finite x) _ = Finite 0"
| "div_d x (Finite y) = signed_infinity (dsign x * (if y < 0 then - 1 else 1))"
| "div_d _ _ = NaN"

fun abs_d :: "decimal \<Rightarrow> decimal" where
  "abs_d (Finite x) = Finite \<bar>x\<bar>"
| "abs_d NaN = NaN"
| "abs_d _ = Infinity"

text \<open>Comparisons; every comparison with \<open>NaN\<close> is false.\<close>

fun lt_d :: "decimal \<Rightarrow> decimal \<Rightarrow> bool" where
  "lt_d (Finite x) (Finite y) = (x < y)"
| "lt_d NaN _ = False"
| "lt_d _ NaN = False"
| "lt_d NegInfinity y = (y \<noteq> NegInfinity)"
| "lt_d x Infinity = (x \<noteq> Infinity)"
| "lt_d _ _ = False"

definition eq_d :: "decimal \<Rightarrow> decimal \<Rightarrow> bool" where
  "eq_d x y = (x \<noteq> NaN \<and> x = y)"

definition gt_d :: "decimal \<Rightarrow> decimal \<Rightarrow> bool" where
  "gt_d x y = lt_d y x"

definition lte_d :: "decimal \<Rightarrow> decimal \<Rightarrow> bool" where
  "lte_d x y = (lt_d x y \<or> eq_d x y)"

definition gte_d :: "decimal \<Rightarrow> decimal \<Rightarrow> bool" where
  "gte_d x y = (lt_d y x \<or> eq_d x y)"

text \<open>
  JavaScript numbers are IEEE 754 binary64 values. \<^verbatim>\<open>Decimal.prototype.toNumber\<close> yields
  the double nearest to the decimal value (ties to even): 53 significant bits, with the
  fixed spacing \<open>2 ^ -1074\<close> below \<open>2 ^ -1022\<close> and overflow to an infinity.
\<close>

datatype number = Number rat | NumInfinity | NumNegInfinity | NumNaN

definition double_pos :: "rat \<Rightarrow> rat" where
  "double_pos x =
     (let s = 2 powi (max (sig_exponent 2 x) (- 1022) - 52)
      in of_int (round_half_even (x / s)) * s)"

definition to_double :: "rat \<Rightarrow> number" where
  "to_double x =
     (if x = 0 then Number 0
      else if 0 < x then (if 2 ^ 1024 \<le> double_pos x then NumInfinity else Number (double_pos x))
      else (if 2 ^ 1024 \<le> double_pos (- x) then NumNegInfinity else Number (- double_pos (- x))))"

fun toNumber :: "decimal \<Rightarrow> number" where
  "toNumber (Finite x) = to_double x"
| "toNumber Infinity = NumInfinity"
| "toNumber NegInfinity = NumNegInfinity"
| "toNumber NaN = NumNaN"

fun Math_floor :: "number \<Rightarrow> number" where
  "Math_floor (Number x) = Number (of_int \<lfloor>x\<rfloor>)"
| "Math_floor n = n"

section \<open>AMM math (\<^verbatim>\<open>sdk/src/math.ts\<close>)\<close>

text \<open>
  Amounts and reserves arrive as \<^verbatim>\<open>string | number\<close> and are turned into \<^verbatim>\<open>Decimal\<close>s by
  \<^verbatim>\<open>new Decimal(...)\<close>, which does not round: the model takes the resulting \<open>decimal\<close>.
  Fee rates and tolerances are basis points, integers in the model.
\<close>

definition BASIS_POINTS :: int where
  "BASIS_POINTS = 10000"

definition of_bp :: "int \<Rightarrow> decimal" where
  "of_bp n = Finite (of_int n)"

definition calculateFee :: "decimal \<Rightarrow> int \<Rightarrow> decimal" where
  "calculateFee amount feeRateBp =
     (let feeRate = div_d (of_bp feeRateBp) (of_bp BASIS_POINTS)
      in times_d amount feeRate)"

definition amountAfterFee :: "decimal \<Rightarrow> int \<Rightarrow> decimal" where
  "amountAfterFee amount feeRateBp =
     (let fee = calculateFee amount feeRateBp
      in minus_d amount fee)"

definition calculateMinOutput :: "decimal \<Rightarrow> int \<Rightarrow> decimal" where
  "calculateMinOutput amount slippageToleranceBp =
     (let slippageRate = div_d (of_bp slippageToleranceBp) (of_bp BASIS_POINTS);
          slippageAmount = times_d amount slippageRate
      in minus_d amount slippageAmount)"

definition calculateMaxInput :: "decimal \<Rightarrow> int \<Rightarrow> decimal" where
  "calculateMaxInput amount slippageToleranceBp =
     (let slippageRate = div_d (of_bp slippageToleranceBp) (of_bp BASIS_POINTS);
          slippageAmount = times_d amount slippageRate
      in plus_d amount slippageAmount)"

datatype math_error = InvalidAmountsOrReserves | AmountOutExceedsReserve

definition getAmountOut :: "decimal \<Rightarrow> decimal \<Rightarrow> decimal \<Rightarrow> int \<Rightarrow> math_error + decimal" where
  "getAmountOut amountIn reserveIn reserveOut feeRateBp =
     (if lte_d amountIn (Finite 0) \<or> lte_d reserveIn (Finite 0) \<or> lte_d reserveOut (Finite 0)
      then Inl InvalidAmountsOrReserves
      else
        let amountInWithFee = amountAfterFee amountIn feeRateBp;
            numerator = times_d amountInWithFee reserveOut;
            denominator = plus_d reserveIn amountInWithFee
        in Inr (div_d numerator denominator))"

definition getAmountIn :: "decimal \<Rightarrow> decimal \<Rightarrow> decimal \<Rightarrow> int \<Rightarrow> math_error + decimal" where
  "getAmountIn amountOut reserveIn reserveOut feeRateBp =
     (if lte_d amountOut (Finite 0) \<or> lte_d reserveIn (Finite 0) \<or> lte_d reserveOut (Finite 0)
      then Inl InvalidAmountsOrReserves
      else if gte_d amountOut reserveOut then Inl AmountOutExceedsReserve
      else
        let numerator = times_d reserveIn amountOut;
            denominator = minus_d reserveOut amountOut;
            amountIn = plus_d (div_d numerator denominator) (Finite 1);
            feeMultiplier = of_bp BASIS_POINTS;
            feeDivisor = of_bp (BASIS_POINTS - feeRateBp)
        in Inr (div_d (times_d amountIn feeMultiplier) feeDivisor))"

definition calculatePriceImpact :: "decimal \<Rightarrow> decimal \<Rightarrow> decimal \<Rightarrow> decimal \<Rightarrow> number" where
  "calculatePriceImpact amountIn amountOut reserveIn reserveOut =
     (if lte_d reserveIn (Finite 0) \<or> lte_d reserveOut (Finite 0)
      then Number (of_int BASIS_POINTS)
      else
        let spotPrice = div_d reserveOut reserveIn;
            executionPrice = div_d amountOut amountIn
        in if gte_d executionPrice spotPrice then Number 0
           else
             let priceDiff = minus_d spotPrice executionPrice;
                 priceImpact = times_d (div_d priceDiff spotPrice) (of_bp BASIS_POINTS)
             in Math_floor (toNumber priceImpact))"

text \<open>
  \<^verbatim>\<open>MathUtils.findBestRoute<T extends { amountOut: string; priceImpact: number }>\<close> takes
  any object type with these two fields: an extensible record. The \<^verbatim>\<open>amountOut\<close> string is
  modelled by the \<open>decimal\<close> that \<^verbatim>\<open>new Decimal(amountOut)\<close> yields.
\<close>

record priced =
  amountOut :: decimal
  priceImpact :: rat

text \<open>
  \<^verbatim>\<open>Array.prototype.sort(compareFn)\<close> sorts the array in place and returns it. It is stable;
  the model is the stable insertion sort, which is what every conforming implementation
  computes when the comparator is a consistent ordering of the elements. When it is not
  (outputs within \<open>0.001\<close> of each other are ties of \<^verbatim>\<open>findBestRoute\<close>, and being tied is
  not transitive), JavaScript leaves the order to the implementation, and the model need
  not agree with an engine; the results below use inputs that the comparator orders
  consistently.
\<close>

fun insert_by :: "('a \<Rightarrow> 'a \<Rightarrow> rat) \<Rightarrow> 'a \<Rightarrow> 'a list \<Rightarrow> 'a list" where
  "insert_by compareFn x [] = [x]"
| "insert_by compareFn x (y # ys) =
     (if compareFn x y < 0 then x # y # ys else y # insert_by compareFn x ys)"

definition array_sort :: "('a \<Rightarrow> 'a \<Rightarrow> rat) \<Rightarrow> 'a list \<Rightarrow> 'a list" where
  "array_sort compareFn xs = foldl (\<lambda>sorted x. insert_by compareFn x sorted) [] xs"

definition array_slice :: "nat \<Rightarrow> nat \<Rightarrow> 'a list \<Rightarrow> 'a list" where
  "array_slice start end xs = take (end - start) (drop start xs)"

definition compare_routes :: "bool \<Rightarrow> 'a priced_scheme \<Rightarrow> 'a priced_scheme \<Rightarrow> rat" where
  "compare_routes prioritizeAmount a b =
     (let amountDiff = minus_d (amountOut b) (amountOut a)
      in if prioritizeAmount \<and> gt_d (abs_d amountDiff) (Finite (1 / 1000))
         then (if gt_d amountDiff (Finite 0) then 1 else - 1)
         else priceImpact a - priceImpact b)"

text \<open>
  The result of \<^verbatim>\<open>MathUtils.findBestRoute(routes, prioritizeAmount)\<close> is the returned
  element (\<open>None\<close> for \<^verbatim>\<open>null\<close>) together with the contents of the caller's array
  \<^verbatim>\<open>routes\<close> after the call.
\<close>

definition MathUtils_findBestRoute ::
  "'a priced_scheme list \<Rightarrow> bool \<Rightarrow> 'a priced_scheme option \<times> 'a priced_scheme list" where
  "MathUtils_findBestRoute routes prioritizeAmount =
     (if length routes = 0 then (None, routes)
      else if length routes = 1 then (Some (hd routes), routes)
      else
        let sorted = array_sort (compare_routes prioritizeAmount) routes
        in (Some (hd sorted), sorted))"

section \<open>Pool cache (\<^verbatim>\<open>backend/src/services/poolService.ts\<close>)\<close>

text \<open>
  JavaScript compares strings by their code units, lexicographically; coin identifiers
  are ASCII, so the order on \<open>string\<close> is the same.
\<close>

definition getPairKey :: "string \<Rightarrow> string \<Rightarrow> string" where
  "getPairKey coinA coinB =
     (if coinA < coinB then coinA @ '':'' @ coinB else coinB @ '':'' @ coinA)"

record coin_info =
  coin_type :: string
  name :: string
  symbol :: string
  decimals :: nat

record pool =
  poolAddress :: string
  coinA :: coin_info
  coinB :: coin_info
  dexType :: string
  reserveA :: decimal
  reserveB :: decimal
  feeRate :: int
  lastUpdated :: int

text \<open>
  A JavaScript \<^verbatim>\<open>Map\<close> keeps its keys in insertion order; \<^verbatim>\<open>set\<close> on a key already
  present replaces the value in place. This is an association list with
  \<^const>\<open>AList.update\<close>, \<^const>\<open>map_of\<close> for \<^verbatim>\<open>get\<close> and \<^const>\<open>length\<close> for \<^verbatim>\<open>size\<close>.
\<close>

record pool_service =
  pools :: "(string \<times> pool) list"
  poolsByPair :: "(string \<times> pool list) list"
  lastUpdateTime :: int

datatype fetch_error = FetchError string

text \<open>
  Each provider function wraps its body in \<^verbatim>\<open>try { ... } catch (error) { return [] }\<close>.
  The bodies are placeholders in the source (\<^verbatim>\<open>TODO: Implement actual ... pool fetching\<close>);
  the outcome of a body, a thrown error or the pool list it returns, is a parameter.
\<close>

definition fetchCetusPools :: "fetch_error + pool list \<Rightarrow> pool list" where
  "fetchCetusPools body = (case body of Inl error \<Rightarrow> [] | Inr mockPools \<Rightarrow> mockPools)"

definition fetchPancakePools :: "fetch_error + pool list \<Rightarrow> pool list" where
  "fetchPancakePools body = (case body of Inl error \<Rightarrow> [] | Inr fetched \<Rightarrow> fetched)"

definition fetchLiquidSwapPools :: "fetch_error + pool list \<Rightarrow> pool list" where
  "fetchLiquidSwapPools body = (case body of Inl error \<Rightarrow> [] | Inr fetched \<Rightarrow> fetched)"

text \<open>The body of the loop \<^verbatim>\<open>for (const pool of allPools)\<close>.\<close>

definition index_pool :: "pool_service \<Rightarrow> pool \<Rightarrow> pool_service" where
  "index_pool s p =
     (let pairKey = getPairKey (coin_type (coinA p)) (coin_type (coinB p));
          byPair = (if map_of (poolsByPair s) pairKey = None
                    then AList.update pairKey [] (poolsByPair s) else poolsByPair s);
          bucket = (case map_of byPair pairKey of None \<Rightarrow> [] | Some ps \<Rightarrow> ps)
      in s\<lparr>pools := AList.update (poolAddress p) p (pools s),
           poolsByPair := AList.update pairKey (bucket @ [p]) byPair\<rparr>)"

text \<open>
  The part of \<^verbatim>\<open>refreshAllPools\<close> after the last \<^verbatim>\<open>await\<close>: clear both maps, index every
  pool, record the time.
\<close>

definition publish :: "pool list \<Rightarrow> int \<Rightarrow> pool_service \<Rightarrow> pool_service" where
  "publish allPools now s =
     (foldl index_pool (s\<lparr>pools := [], poolsByPair := []\<rparr>) allPools)\<lparr>lastUpdateTime := now\<rparr>"

definition refreshAllPools ::
  "fetch_error + pool list \<Rightarrow> fetch_error + pool list \<Rightarrow> fetch_error + pool list \<Rightarrow>
   int \<Rightarrow> pool_service \<Rightarrow> pool_service" where
  "refreshAllPools cetus pancake liquidswap now s =
     (let cetusPools = fetchCetusPools cetus;
          pancakePools = fetchPancakePools pancake;
          liquidSwapPools = fetchLiquidSwapPools liquidswap;
          allPools = cetusPools @ pancakePools @ liquidSwapPools
      in publish allPools now s)"

definition getAllPools :: "pool_service \<Rightarrow> pool list" where
  "getAllPools s = map snd (pools s)"

definition getPoolsForPair :: "pool_service \<Rightarrow> string \<Rightarrow> string \<Rightarrow> pool list" where
  "getPoolsForPair s a b =
     (case map_of (poolsByPair s) (getPairKey a b) of None \<Rightarrow> [] | Some ps \<Rightarrow> ps)"

definition getPool :: "pool_service \<Rightarrow> string \<Rightarrow> pool option" where
  "getPool s address = map_of (pools s) address"

record health_status =
  status :: string
  poolCount :: nat
  lastUpdate :: int
  timeSinceUpdate :: int

definition getHealthStatus :: "pool_service \<Rightarrow> int \<Rightarrow> health_status" where
  "getHealthStatus s now =
     (let timeSinceUpdate = now - lastUpdateTime s;
          isHealthy = timeSinceUpdate < 60000
      in \<lparr>status = (if isHealthy then ''healthy'' else ''stale''),
          poolCount = length (pools s),
          lastUpdate = lastUpdateTime s,
          timeSinceUpdate = timeSinceUpdate\<rparr>)"

text \<open>
  \<^verbatim>\<open>PoolService.calculateOutput\<close> and \<^verbatim>\<open>PoolService.calculatePriceImpact\<close>. The reserves of
  a pool are strings in the source; the record holds the \<open>decimal\<close>s that
  \<^verbatim>\<open>new Decimal(...)\<close> makes of them. A thrown error is \<open>Inl\<close>.
\<close>

definition calculateOutput :: "pool \<Rightarrow> string \<Rightarrow> decimal \<Rightarrow> math_error + decimal" where
  "calculateOutput p coinIn amountIn =
     (let isA2B = (coin_type (coinA p) = coinIn);
          reserveIn = (if isA2B then reserveA p else reserveB p);
          reserveOut = (if isA2B then reserveB p else reserveA p)
      in if lte_d amountIn (Finite 0) \<or> lte_d reserveIn (Finite 0) \<or> lte_d reserveOut (Finite 0)
         then Inl InvalidAmountsOrReserves
         else
           let feeRate = div_d (of_bp (feeRate p)) (Finite 10000);
               amountInWithFee = times_d amountIn (minus_d (Finite 1) feeRate);
               numerator = times_d amountInWithFee reserveOut;
               denominator = plus_d reserveIn amountInWithFee
           in Inr (div_d numerator denominator))"

definition PoolService_calculatePriceImpact :: "pool \<Rightarrow> string \<Rightarrow> decimal \<Rightarrow> math_error + number" where
  "PoolService_calculatePriceImpact p coinIn amountIn =
     (let isA2B = (coin_type (coinA p) = coinIn);
          reserveIn = (if isA2B then reserveA p else reserveB p);
          reserveOut = (if isA2B then reserveB p else reserveA p)
      in if lte_d reserveIn (Finite 0) \<or> lte_d reserveOut (Finite 0) then Inr (Number 10000)
         else
           let spotPrice = div_d reserveOut reserveIn
           in case calculateOutput p coinIn amountIn of
                Inl error \<Rightarrow> Inl error
              | Inr amountOut' \<Rightarrow>
                  let executionPrice = div_d amountOut' amountIn
                  in if gte_d executionPrice spotPrice then Inr (Number 0)
                     else
                       let priceDiff = minus_d spotPrice executionPrice;
                           priceImpact = times_d (div_d priceDiff spotPrice) (Finite 10000)
                       in Inr (Math_floor (toNumber priceImpact)))"

text \<open>
  \<^verbatim>\<open>refreshAllPools\<close> is an \<^verbatim>\<open>async\<close> function. JavaScript runs the code between two
  \<^verbatim>\<open>await\<close>s without interruption; other tasks (request handlers reading the cache) run
  only while the function is suspended at an \<^verbatim>\<open>await\<close>. The function has three, one per
  provider, all before the first write to the maps. A refresh in progress is its
  position and the provider results it holds.
\<close>

datatype refresh_task =
  Start
| AwaitCetus
| AwaitPancake "pool list"
| AwaitLiquidSwap "pool list" "pool list"
| Done

fun refresh_step ::
  "fetch_error + pool list \<Rightarrow> fetch_error + pool list \<Rightarrow> fetch_error + pool list \<Rightarrow>
   int \<Rightarrow> refresh_task \<times> pool_service \<Rightarrow> refresh_task \<times> pool_service" where
  "refresh_step cetus pancake liquidswap now (Start, s) = (AwaitCetus, s)"
| "refresh_step cetus pancake liquidswap now (AwaitCetus, s) =
     (AwaitPancake (fetchCetusPools cetus), s)"
| "refresh_step cetus pancake liquidswap now (AwaitPancake cetusPools, s) =
     (AwaitLiquidSwap cetusPools (fetchPancakePools pancake), s)"
| "refresh_step cetus pancake liquidswap now (AwaitLiquidSwap cetusPools pancakePools, s) =
     (Done, publish (cetusPools @ pancakePools @ fetchLiquidSwapPools liquidswap) now s)"
| "refresh_step cetus pancake liquidswap now (Done, s) = (Done, s)"

text \<open>What a reader can ask the cache while the refresh is suspended.\<close>

datatype read_request = GetAllPools | GetPoolsForPair string string | GetPool string

datatype read_result = Pools "pool list" | PoolOrUndefined "pool option"

fun read_cache :: "pool_service \<Rightarrow> read_request \<Rightarrow> read_result" where
  "read_cache s GetAllPools = Pools (getAllPools s)"
| "read_cache s (GetPoolsForPair a b) = Pools (getPoolsForPair s a b)"
| "read_cache s (GetPool address) = PoolOrUndefined (getPool s address)"

text \<open>
  A schedule interleaves the steps of one refresh with reads. \<open>observe\<close> runs it and
  collects what the reads return.
\<close>

datatype event = Resume | Read read_request

fun observe ::
  "fetch_error + pool list \<Rightarrow> fetch_error + pool list \<Rightarrow> fetch_error + pool list \<Rightarrow>
   int \<Rightarrow> event list \<Rightarrow> refresh_task \<times> pool_service \<Rightarrow> read_result list" where
  "observe cetus pancake liquidswap now [] c = []"
| "observe cetus pancake liquidswap now (Resume # es) c =
     observe cetus pancake liquidswap now es (refresh_step cetus pancake liquidswap now c)"
| "observe cetus pancake liquidswap now (Read r # es) c =
     read_cache (snd c) r # observe cetus pancake liquidswap now es c"

section \<open>Route selection (\<^verbatim>\<open>backend/src/services/routerService.ts\<close>)\<close>

record route_step = priced +
  step_dexType :: string
  step_coinIn :: string
  step_coinOut :: string
  step_poolAddress :: string
  step_amountIn :: decimal
  step_feeRate :: int

record route = priced +
  steps :: "route_step list"
  route_amountIn :: decimal
  fee :: decimal
  estimatedGas :: nat

record quote_response =
  best :: route
  alternatives :: "route list"

text \<open>
  \<^verbatim>\<open>RouterService.findBestRoute\<close> after the call of \<^verbatim>\<open>this.findAllRoutes(...)\<close>, whose
  result \<^verbatim>\<open>allRoutes\<close> is the parameter. The fields \<^verbatim>\<open>route\<close> and \<^verbatim>\<open>routes\<close> of the response
  are \<open>best\<close> and \<open>alternatives\<close>; \<open>None\<close> is \<^verbatim>\<open>null\<close>.
\<close>

definition RouterService_findBestRoute :: "route list \<Rightarrow> quote_response option" where
  "RouterService_findBestRoute allRoutes =
     (if length allRoutes = 0 then None
      else
        let sortedRoutes = array_sort (compare_routes True) allRoutes;
            bestRoute = hd sortedRoutes;
            alternativeRoutes = array_slice 1 5 sortedRoutes
        in Some \<lparr>best = bestRoute, alternatives = alternativeRoutes\<rparr>)"

section \<open>Local route search of the SDK (\<^verbatim>\<open>sdk/src/router.ts\<close>)\<close>

text \<open>An element of \<^verbatim>\<open>PoolsResponse.pools\<close>, the pool list of the API.\<close>

record api_pool =
  pool_address :: string
  coin_a :: coin_info
  coin_b :: coin_info
  dex_type :: string
  reserve_a :: decimal
  reserve_b :: decimal
  fee_rate :: int

record neighbor =
  neighbor_coinOut :: string
  neighbor_pool :: api_pool

type_synonym pool_graph = "(string \<times> neighbor list) list"

definition graph_get :: "pool_graph \<Rightarrow> string \<Rightarrow> neighbor list" where
  "graph_get graph coin = (case map_of graph coin of None \<Rightarrow> [] | Some ns \<Rightarrow> ns)"

definition graph_push :: "string \<Rightarrow> neighbor \<Rightarrow> pool_graph \<Rightarrow> pool_graph" where
  "graph_push coin n graph = AList.update coin (graph_get graph coin @ [n]) graph"

definition add_pool :: "pool_graph \<Rightarrow> api_pool \<Rightarrow> pool_graph" where
  "add_pool graph p =
     (let coinA = coin_type (coin_a p); coinB = coin_type (coin_b p);
          g1 = (if map_of graph coinA = None then AList.update coinA [] graph else graph);
          g2 = (if map_of g1 coinB = None then AList.update coinB [] g1 else g1);
          g3 = graph_push coinA \<lparr>neighbor_coinOut = coinB, neighbor_pool = p\<rparr> g2
      in graph_push coinB \<lparr>neighbor_coinOut = coinA, neighbor_pool = p\<rparr> g3)"

definition buildPoolGraph :: "api_pool list \<Rightarrow> pool_graph" where
  "buildPoolGraph ps = foldl add_pool [] ps"

text \<open>
  \<^verbatim>\<open>findAllRoutes(coinIn, coinOut, graph, maxHops, currentPath = [], visited = new Set())\<close>.
  Every recursive call receives a fresh copy \<^verbatim>\<open>new Set(visited)\<close>, so the set is a value.
\<close>

function findAllRoutes ::
  "string \<Rightarrow> string \<Rightarrow> pool_graph \<Rightarrow> int \<Rightarrow> neighbor list \<Rightarrow> string set \<Rightarrow> neighbor list list"
where
  "findAllRoutes coinIn coinOut graph maxHops currentPath visited =
     (if maxHops \<le> int (length currentPath) then []
      else if coinIn = coinOut \<and> 0 < length currentPath then [currentPath]
      else if coinIn \<in> visited then []
      else
        let visited' = insert coinIn visited;
            neighbors = graph_get graph coinIn
        in concat (map (\<lambda>n.
             if neighbor_coinOut n \<notin> visited'
             then findAllRoutes (neighbor_coinOut n) coinOut graph maxHops (currentPath @ [n]) visited'
             else []) neighbors))"
  by pat_completeness auto
termination
  by (relation "measure (\<lambda>(coinIn, coinOut, graph, maxHops, currentPath, visited).
        nat (maxHops - int (length currentPath)))") auto

declare findAllRoutes.simps [simp del]

section \<open>Auxiliary notions and sample data\<close>

text \<open>The pair key under which a pool is indexed, and the bucket of a key.\<close>

definition pair_of :: "pool \<Rightarrow> string" where
  "pair_of p = getPairKey (coin_type (coinA p)) (coin_type (coinB p))"

definition bucket :: "pool_service \<Rightarrow> string \<Rightarrow> pool list" where
  "bucket s k = (case map_of (poolsByPair s) k of None \<Rightarrow> [] | Some ps \<Rightarrow> ps)"

text \<open>The read requests of a schedule, in order.\<close>

definition reads :: "event list \<Rightarrow> read_request list" where
  "reads es = concat (map (\<lambda>e. case e of Resume \<Rightarrow> [] | Read r \<Rightarrow> [r]) es)"

text \<open>The number of segments of a refresh that are still to run.\<close>

fun segments_left :: "refresh_task \<Rightarrow> nat" where
  "segments_left Start = 4"
| "segments_left AwaitCetus = 3"
| "segments_left (AwaitPancake cetusPools) = 2"
| "segments_left (AwaitLiquidSwap cetusPools pancakePools) = 1"
| "segments_left Done = 0"

text \<open>The mock pool list in the body of \<^verbatim>\<open>fetchCetusPools\<close>, fetched at time \<open>now\<close>.\<close>

definition mockPools :: "int \<Rightarrow> pool list" where
  "mockPools now =
     [\<lparr>poolAddress = ''0x1::mock::pool_apt_usdc'',
       coinA = \<lparr>coin_type = ''0x1::aptos_coin::AptosCoin'', name = ''Aptos Coin'',
                symbol = ''APT'', decimals = 8\<rparr>,
       coinB = \<lparr>coin_type =
                  ''0xf22bede237a07e121b56d91a491eb7bcdfd1f5907926a9e58338f964a01b17fa::asset::USDC'',
                name = ''USD Coin'', symbol = ''USDC'', decimals = 6\<rparr>,
       dexType = ''CETUS'',
       reserveA = Finite 1000000000000,
       reserveB = Finite 100000000000,
       feeRate = 30,
       lastUpdated = now\<rparr>]"

definition liquidswap_pool :: pool where
  "liquidswap_pool =
     \<lparr>poolAddress = ''0x2::mock::pool_apt_usdc'',
      coinA = \<lparr>coin_type = ''0x1::aptos_coin::AptosCoin'', name = ''Aptos Coin'',
               symbol = ''APT'', decimals = 8\<rparr>,
      coinB = \<lparr>coin_type =
                 ''0xf22bede237a07e121b56d91a491eb7bcdfd1f5907926a9e58338f964a01b17fa::asset::USDC'',
               name = ''USD Coin'', symbol = ''USDC'', decimals = 6\<rparr>,
      dexType = ''LIQUIDSWAP'',
      reserveA = Finite 500000000000,
      reserveB = Finite 50000000000,
      feeRate = 30,
      lastUpdated = 0\<rparr>"

definition empty_service :: pool_service where
  "empty_service = \<lparr>pools = [], poolsByPair = [], lastUpdateTime = 0\<rparr>"

text \<open>A single-hop route with the given output and price impact.\<close>

definition sample_route :: "rat \<Rightarrow> rat \<Rightarrow> route" where
  "sample_route out impact =
     \<lparr>amountOut = Finite out, priceImpact = impact,
      steps = [\<lparr>amountOut = Finite out, priceImpact = impact, step_dexType = ''CETUS'',
                step_coinIn = ''0x1::aptos_coin::AptosCoin'',
                step_coinOut = ''0x1::coin::USDC'',
                step_poolAddress = ''0x1::mock::pool_apt_usdc'',
                step_amountIn = Finite 100, step_feeRate = 30\<rparr>],
      route_amountIn = Finite 100, fee = Finite (3 / 10), estimatedGas = 5000\<rparr>"

definition ab_pool :: api_pool where
  "ab_pool =
     \<lparr>pool_address = ''0xab'',
      coin_a = \<lparr>coin_type = ''A'', name = ''Coin A'', symbol = ''A'', decimals = 8\<rparr>,
      coin_b = \<lparr>coin_type = ''B'', name = ''Coin B'', symbol = ''B'', decimals = 6\<rparr>,
      dex_type = ''CETUS'', reserve_a = Finite 1000, reserve_b = Finite 2000, fee_rate = 30\<rparr>"

text \<open>
  Half a unit in the last of 20 significant digits, relative to the value: the largest
  relative error of one rounded operation.
\<close>

definition eps :: rat where
  "eps = 1 / (2 * 10 ^ 19)"

text \<open>
  For an amount \<open>x\<close> and a fee \<open>f\<close> in basis points: the exact amount after the fee, and
  the value \<^const>\<open>amountAfterFee\<close> computes for it, with the fee and the difference rounded.
\<close>

definition after_fee :: "rat \<Rightarrow> int \<Rightarrow> rat" where
  "after_fee x f = x * of_int (10000 - f) / 10 ^ 4"

definition after_fee_value :: "rat \<Rightarrow> int \<Rightarrow> rat" where
  "after_fee_value x f = round_sd (x - round_sd (x * (of_int f / 10 ^ 4)))"

text \<open>
  For an amount \<open>w\<close> after the fee: the exact constant-product quotient, and the value
  \<^const>\<open>getAmountOut\<close> computes for it, with numerator, denominator and quotient rounded.
\<close>

definition swap_exact :: "rat \<Rightarrow> rat \<Rightarrow> rat \<Rightarrow> rat" where
  "swap_exact w rin rout = w * rout / (rin + w)"

definition swap_value :: "rat \<Rightarrow> rat \<Rightarrow> rat \<Rightarrow> rat" where
  "swap_value w rin rout = round_sd (round_sd (w * rout) / round_sd (rin + w))"

text \<open>The value \<^const>\<open>getAmountIn\<close> computes for an accepted output amount.\<close>

definition in_value :: "rat \<Rightarrow> rat \<Rightarrow> rat \<Rightarrow> int \<Rightarrow> rat" where
  "in_value out rin rout f =
     round_sd (round_sd (round_sd
       (round_sd (round_sd (rin * out) / round_sd (rout - out)) + 1) * 10000)
       / of_int (10000 - f))"

section \<open>Evaluation rules\<close>

lemma floor_rat_numeral_div:
  "\<lfloor>numeral a / numeral b :: rat\<rfloor> = numeral a div numeral b"
  by (metis floor_divide_of_int_eq of_int_numeral)

lemma ceiling_rat_numeral_div:
  "\<lceil>numeral a / numeral b :: rat\<rceil> = - (- numeral a div numeral b)"
  by (metis ceiling_def floor_divide_of_int_eq minus_divide_left of_int_minus of_int_numeral)

lemmas round_eval = round_sd_def round_pos_def sig_exponent_def round_half_up_def
  precision_def ndigits.simps power_int_def Let_def floor_rat_numeral_div
  ceiling_rat_numeral_div power_divide

lemmas math_eval = calculateFee_def amountAfterFee_def calculateMinOutput_def
  calculateMaxInput_def getAmountOut_def getAmountIn_def BASIS_POINTS_def of_bp_def
  minus_d_def lte_d_def gte_d_def gt_d_def eq_d_def signed_infinity_def

lemmas number_eval = calculatePriceImpact_def to_double_def double_pos_def
  round_half_even_def

section \<open>Properties of the rounding\<close>

lemma ndigits_pos: "0 < ndigits b n"
  by (subst ndigits.simps) simp

lemma ndigits_bounds:
  "2 \<le> b \<Longrightarrow> 0 < n \<Longrightarrow> b ^ (ndigits b n - 1) \<le> n \<and> n < b ^ ndigits b n"
proof (induction b n rule: ndigits.induct)
  case (1 b n)
  show ?case
  proof (cases "n < b")
    case True
    then have "ndigits b n = 1" by (subst ndigits.simps) simp
    with True 1(3) show ?thesis by simp
  next
    case False
    let ?m = "n div b"
    have d: "ndigits b n = Suc (ndigits b ?m)"
      using False 1(2) by (subst ndigits.simps) simp
    have mpos: "0 < ?m" using False 1(2) by (simp add: div_greater_zero_iff)
    have ih: "b ^ (ndigits b ?m - 1) \<le> ?m \<and> ?m < b ^ ndigits b ?m"
      using 1(1) False 1(2) mpos by simp
    have dm: "0 < ndigits b ?m" by (rule ndigits_pos)
    have "b ^ ndigits b ?m = b * b ^ (ndigits b ?m - 1)"
      using dm by (cases "ndigits b ?m") simp_all
    also have "\<dots> \<le> b * ?m" using ih by simp
    also have "\<dots> \<le> n" by simp
    finally have lo: "b ^ ndigits b ?m \<le> n" .
    have "n < b * (?m + 1)"
      using 1(2) by (metis Suc_eq_plus1 dividend_less_times_div less_le_trans mult.commute pos2 zero_less_Suc add.commute mult_Suc_right)
    also have "\<dots> \<le> b * b ^ ndigits b ?m"
    proof (rule mult_le_mono2)
      show "?m + 1 \<le> b ^ ndigits b ?m" using ih by simp
    qed
    finally have hi: "n < b ^ Suc (ndigits b ?m)" by simp
    show ?thesis using lo hi d by simp
  qed
qed

lemma sig_exponent_bounds:
  assumes b: "2 \<le> b" and x: "0 < x"
  shows "of_nat b powi sig_exponent b x \<le> x \<and> x < of_nat b powi (sig_exponent b x + 1)"
proof (cases "1 \<le> x")
  case True
  let ?n = "nat \<lfloor>x\<rfloor>"
  let ?d = "ndigits b ?n"
  have npos: "0 < ?n" using True by simp
  have e: "sig_exponent b x = int ?d - 1" using True by (simp add: sig_exponent_def)
  have dpos: "0 < ?d" by (rule ndigits_pos)
  have nb: "b ^ (?d - 1) \<le> ?n \<and> ?n < b ^ ?d" using ndigits_bounds [OF b npos] .
  have e1: "int ?d - 1 = int (?d - 1)" using dpos by simp
  have fl: "0 \<le> \<lfloor>x\<rfloor>" using True by simp
  have n_eq: "(of_nat ?n :: rat) = of_int \<lfloor>x\<rfloor>" using fl by simp
  have nx: "(of_nat ?n :: rat) \<le> x" unfolding n_eq by simp
  have xn: "x < of_nat ?n + 1" unfolding n_eq using floor_correct [of x] by simp
  have "(of_nat b :: rat) ^ (?d - 1) = of_nat (b ^ (?d - 1))" by simp
  also have "\<dots> \<le> of_nat ?n" using nb by (simp only: of_nat_le_iff)
  also have "\<dots> \<le> x" by (rule nx)
  finally have lo: "(of_nat b :: rat) ^ (?d - 1) \<le> x" .
  have "?n + 1 \<le> b ^ ?d" using nb by simp
  then have "(of_nat (?n + 1) :: rat) \<le> of_nat (b ^ ?d)" by (simp only: of_nat_le_iff)
  then have hi: "x < (of_nat b :: rat) ^ ?d" using xn by simp
  have elo: "sig_exponent b x = int (?d - 1)" by (simp only: e e1)
  have ehi: "sig_exponent b x + 1 = int ?d" using e by simp
  have lo': "of_nat b powi sig_exponent b x \<le> x" by (simp only: elo power_int_of_nat lo)
  have hi': "x < of_nat b powi (sig_exponent b x + 1)" by (simp only: ehi power_int_of_nat hi)
  show ?thesis using lo' hi' by blast
next
  case False
  let ?m = "nat (\<lceil>1 / x\<rceil> - 1)"
  let ?d = "ndigits b ?m"
  have x1: "x < 1" using False by simp
  have inv: "1 < 1 / x" using x x1 by simp
  have "1 < \<lceil>1 / x\<rceil>" using inv by (simp only: less_ceiling_iff of_int_1)
  then have c2: "2 \<le> \<lceil>1 / x\<rceil>" by linarith
  have mpos: "0 < ?m" using c2 by linarith
  have e: "sig_exponent b x = - int ?d" using False by (simp add: sig_exponent_def)
  have dpos: "0 < ?d" by (rule ndigits_pos)
  have mb: "b ^ (?d - 1) \<le> ?m \<and> ?m < b ^ ?d" using ndigits_bounds [OF b mpos] .
  have "0 \<le> \<lceil>1 / x\<rceil> - 1" using c2 by linarith
  then have "(of_nat ?m :: rat) = of_int (\<lceil>1 / x\<rceil> - 1)" by (rule of_nat_nat)
  then have m_eq: "(of_nat ?m :: rat) = of_int \<lceil>1 / x\<rceil> - 1" by simp
  have mlt: "(of_nat ?m :: rat) < 1 / x" unfolding m_eq
    using ceiling_correct [of "1 / x"] by linarith
  have mge: "1 / x \<le> of_nat ?m + 1" unfolding m_eq
    using ceiling_correct [of "1 / x"] by linarith
  have bpos: "(0::rat) < of_nat b" using b by simp
  have "?m + 1 \<le> b ^ ?d" using mb by simp
  then have "(of_nat (?m + 1) :: rat) \<le> of_nat (b ^ ?d)" by (simp only: of_nat_le_iff)
  then have "1 / x \<le> (of_nat b :: rat) ^ ?d" using mge by simp
  then have lo: "1 / (of_nat b :: rat) ^ ?d \<le> x"
    using x bpos by (simp add: field_simps)
  have "(of_nat b :: rat) ^ (?d - 1) = of_nat (b ^ (?d - 1))" by simp
  also have "\<dots> \<le> of_nat ?m" using mb by (simp only: of_nat_le_iff)
  also have "\<dots> < 1 / x" by (rule mlt)
  finally have "(of_nat b :: rat) ^ (?d - 1) < 1 / x" .
  then have hi: "x < 1 / (of_nat b :: rat) ^ (?d - 1)"
    using x bpos by (simp add: field_simps)
  have p1: "of_nat b powi (- int ?d) = 1 / (of_nat b :: rat) ^ ?d"
    by (simp only: power_int_minus_divide power_int_of_nat)
  have e2: "sig_exponent b x + 1 = - int (?d - 1)" using e dpos by simp
  have p2: "of_nat b powi (- int (?d - 1)) = 1 / (of_nat b :: rat) ^ (?d - 1)"
    by (simp only: power_int_minus_divide power_int_of_nat)
  have lo': "of_nat b powi sig_exponent b x \<le> x" by (simp only: e p1 lo)
  have hi': "x < of_nat b powi (sig_exponent b x + 1)" by (simp only: e2 p2 hi)
  show ?thesis using lo' hi' by blast
qed

lemma dec_exponent_bounds:
  "0 < x \<Longrightarrow> 10 powi sig_exponent 10 x \<le> x \<and> x < 10 powi (sig_exponent 10 x + 1)"
  using sig_exponent_bounds [of 10 x] by simp

lemma round_half_up_mono: "q \<le> r \<Longrightarrow> round_half_up q \<le> round_half_up r"
  unfolding round_half_up_def by (rule floor_mono) simp

lemma round_half_up_of_int: "round_half_up (of_int k) = k"
  unfolding round_half_up_def by (simp add: floor_unique)

lemma round_half_up_bounds:
  "of_int (round_half_up q) \<le> q + 1 / 2 \<and> q - 1 / 2 < of_int (round_half_up q)"
  unfolding round_half_up_def using floor_correct [of "q + 1 / 2"] by simp

lemma dec_scale:
  assumes x: "0 < x"
  defines "s \<equiv> (10::rat) powi (sig_exponent 10 x - 19)"
  shows "0 < s" and "s * 10 ^ 19 \<le> x" and "x < s * 10 ^ 20"
    and "s * 10 ^ 19 = 10 powi sig_exponent 10 x"
    and "s * 10 ^ 20 = 10 powi (sig_exponent 10 x + 1)"
proof -
  let ?e = "sig_exponent 10 x"
  show "0 < s" by (simp add: s_def)
  have a: "s * 10 powi 19 = 10 powi (?e - 19 + 19)"
    unfolding s_def by (rule power_int_add [symmetric]) simp
  have b: "s * 10 powi 20 = 10 powi (?e - 19 + 20)"
    unfolding s_def by (rule power_int_add [symmetric]) simp
  have "?e - 19 + 19 = ?e" by simp
  with a have "s * 10 powi 19 = 10 powi ?e" by (simp only:)
  then show e19: "s * 10 ^ 19 = 10 powi ?e" by (simp only: power_int_numeral)
  have "?e - 19 + 20 = ?e + 1" by simp
  with b have "s * 10 powi 20 = 10 powi (?e + 1)" by (simp only:)
  then show e20: "s * 10 ^ 20 = 10 powi (?e + 1)" by (simp only: power_int_numeral)
  show "s * 10 ^ 19 \<le> x" using dec_exponent_bounds [OF x] e19 by simp
  show "x < s * 10 ^ 20" using dec_exponent_bounds [OF x] e20 by simp
qed

lemma round_pos_decomp:
  assumes x: "0 < x"
  defines "s \<equiv> (10::rat) powi (sig_exponent 10 x - 19)"
  defines "n \<equiv> round_half_up (x / s)"
  shows "round_pos x = of_int n * s"
    and "of_int n * s \<le> x + s / 2" and "x - s / 2 < of_int n * s"
    and "10 ^ 19 \<le> n" and "n \<le> 10 ^ 20"
proof -
  have sp: "0 < s" and lo: "s * 10 ^ 19 \<le> x" and hi: "x < s * 10 ^ 20"
    using dec_scale [OF x] by (simp_all add: s_def)
  show "round_pos x = of_int n * s"
    by (simp add: round_pos_def precision_def Let_def s_def n_def)
  have nb: "of_int n \<le> x / s + 1 / 2 \<and> x / s - 1 / 2 < of_int n"
    unfolding n_def by (rule round_half_up_bounds)
  have eq1: "(x / s + 1 / 2) * s = x + s / 2" using sp by (simp add: field_simps)
  have eq2: "(x / s - 1 / 2) * s = x - s / 2" using sp by (simp add: field_simps)
  have "of_int n * s \<le> (x / s + 1 / 2) * s"
    using nb sp by (simp only: mult_le_cancel_right_pos)
  then show "of_int n * s \<le> x + s / 2" by (simp only: eq1)
  have "(x / s - 1 / 2) * s < of_int n * s"
    using nb sp by (simp only: mult_less_cancel_right_pos)
  then show "x - s / 2 < of_int n * s" by (simp only: eq2)
  have q_lo: "10 ^ 19 \<le> x / s" using lo sp by (simp add: field_simps)
  have q_hi: "x / s < 10 ^ 20" using hi sp by (simp add: field_simps)
  have "round_half_up (of_int (10 ^ 19)) \<le> round_half_up (x / s)"
    by (rule round_half_up_mono) (use q_lo in simp)
  then show "10 ^ 19 \<le> n" unfolding n_def round_half_up_of_int .
  have "round_half_up (x / s) \<le> round_half_up (of_int (10 ^ 20))"
    by (rule round_half_up_mono) (use q_hi in simp)
  then show "n \<le> 10 ^ 20" unfolding n_def round_half_up_of_int .
qed

lemma round_pos_scale_bounds:
  assumes x: "0 < x"
  shows "10 powi sig_exponent 10 x \<le> round_pos x"
    and "round_pos x \<le> 10 powi (sig_exponent 10 x + 1)"
proof -
  let ?s = "(10::rat) powi (sig_exponent 10 x - 19)"
  let ?n = "round_half_up (x / ?s)"
  have sp: "0 < ?s" by simp
  have r: "round_pos x = of_int ?n * ?s" and n1: "10 ^ 19 \<le> ?n" and n2: "?n \<le> 10 ^ 20"
    using round_pos_decomp [OF x] by blast+
  have "(of_int (10 ^ 19) :: rat) \<le> of_int ?n" using n1 by (simp only: of_int_le_iff)
  then have n1r: "(10::rat) ^ 19 \<le> of_int ?n" by simp
  have "(of_int ?n :: rat) \<le> of_int (10 ^ 20)" using n2 by (simp only: of_int_le_iff)
  then have n2r: "of_int ?n \<le> (10::rat) ^ 20" by simp
  have "10 powi sig_exponent 10 x = ?s * 10 ^ 19" by (rule dec_scale(4) [OF x, symmetric])
  also have "\<dots> = 10 ^ 19 * ?s" by (rule mult.commute)
  also have "\<dots> \<le> of_int ?n * ?s" using n1r sp by (rule mult_right_mono [OF _ less_imp_le])
  also have "\<dots> = round_pos x" by (rule r [symmetric])
  finally show "10 powi sig_exponent 10 x \<le> round_pos x" .
  have "round_pos x = of_int ?n * ?s" by (rule r)
  also have "\<dots> \<le> 10 ^ 20 * ?s" using n2r sp by (rule mult_right_mono [OF _ less_imp_le])
  also have "\<dots> = ?s * 10 ^ 20" by (rule mult.commute)
  also have "\<dots> = 10 powi (sig_exponent 10 x + 1)" by (rule dec_scale(5) [OF x])
  finally show "round_pos x \<le> 10 powi (sig_exponent 10 x + 1)" .
qed

lemma round_pos_pos: "0 < x \<Longrightarrow> 0 < round_pos x"
  using round_pos_scale_bounds(1) [of x] zero_less_power_int [of "10::rat" "sig_exponent 10 x"]
  by linarith

lemma round_pos_upper:
  assumes x: "0 < x"
  shows "round_pos x \<le> x + x / (2 * 10 ^ 19)"
proof -
  let ?s = "(10::rat) powi (sig_exponent 10 x - 19)"
  have "round_pos x \<le> x + ?s / 2" using round_pos_decomp(1,2) [OF x] by simp
  moreover have "?s \<le> x / 10 ^ 19" using dec_scale(2) [OF x] by (simp add: field_simps)
  ultimately show ?thesis by simp
qed

lemma round_pos_lower:
  assumes x: "0 < x"
  shows "x - x / (2 * 10 ^ 19) \<le> round_pos x"
proof -
  let ?s = "(10::rat) powi (sig_exponent 10 x - 19)"
  have "x - ?s / 2 < round_pos x" using round_pos_decomp(1,3) [OF x] by simp
  moreover have "?s \<le> x / 10 ^ 19" using dec_scale(2) [OF x] by (simp add: field_simps)
  ultimately show ?thesis by simp
qed

lemma sig_exponent_mono:
  assumes x: "0 < x" and xy: "x \<le> y"
  shows "sig_exponent 10 x \<le> sig_exponent 10 y"
proof (rule ccontr)
  assume "\<not> sig_exponent 10 x \<le> sig_exponent 10 y"
  then have "sig_exponent 10 y + 1 \<le> sig_exponent 10 x" by simp
  then have "(10::rat) powi (sig_exponent 10 y + 1) \<le> 10 powi sig_exponent 10 x"
    by (rule power_int_increasing) simp
  moreover have "0 < y" using x xy by simp
  ultimately show False
    using dec_exponent_bounds [OF x] dec_exponent_bounds [of y] xy by linarith
qed

lemma round_pos_mono:
  assumes x: "0 < x" and xy: "x \<le> y"
  shows "round_pos x \<le> round_pos y"
proof -
  have y: "0 < y" using x xy by simp
  have le: "sig_exponent 10 x \<le> sig_exponent 10 y" by (rule sig_exponent_mono [OF x xy])
  show ?thesis
  proof (cases "sig_exponent 10 x = sig_exponent 10 y")
    case True
    let ?s = "(10::rat) powi (sig_exponent 10 x - 19)"
    have sp: "0 < ?s" by simp
    have "x / ?s \<le> y / ?s" using xy sp by (simp add: divide_right_mono)
    then have "round_half_up (x / ?s) \<le> round_half_up (y / ?s)" by (rule round_half_up_mono)
    then have "(of_int (round_half_up (x / ?s)) :: rat) \<le> of_int (round_half_up (y / ?s))"
      by (simp only: of_int_le_iff)
    then have "of_int (round_half_up (x / ?s)) * ?s \<le> of_int (round_half_up (y / ?s)) * ?s"
      using sp by (simp only: mult_le_cancel_right_pos)
    then show ?thesis by (simp add: round_pos_def precision_def Let_def True)
  next
    case False
    then have "sig_exponent 10 x + 1 \<le> sig_exponent 10 y" using le by simp
    then have "(10::rat) powi (sig_exponent 10 x + 1) \<le> 10 powi sig_exponent 10 y"
      by (rule power_int_increasing) simp
    then show ?thesis
      using round_pos_scale_bounds(2) [OF x] round_pos_scale_bounds(1) [OF y] by linarith
  qed
qed

lemma round_pos_exact:
  assumes n: "0 < n" "n < 10 ^ 20"
  shows "round_pos (of_int n * 10 powi k) = of_int n * 10 powi k"
proof -
  let ?x = "of_int n * (10::rat) powi k"
  let ?e = "sig_exponent 10 ?x"
  let ?s = "(10::rat) powi (?e - 19)"
  have x: "0 < ?x" using n by simp
  have "(of_int n :: rat) < of_int (10 ^ 20)" using n by (simp only: of_int_less_iff)
  then have "?x < 10 ^ 20 * 10 powi k" by simp
  also have "\<dots> = 10 powi (20 + k)"
    by (simp add: power_int_add)
  finally have "10 powi ?e < (10::rat) powi (20 + k)"
    using dec_exponent_bounds [OF x] by linarith
  then have "?e < 20 + k"
    using power_int_increasing [of "20 + k" ?e "10::rat"] by (cases "?e < 20 + k") auto
  then have d: "0 \<le> k - (?e - 19)" by simp
  have "?x / ?s = of_int n * (10 powi k / 10 powi (?e - 19))" by simp
  also have "10 powi k / 10 powi (?e - 19) = (10::rat) powi (k - (?e - 19))"
    by (rule power_int_diff [symmetric]) simp
  also have "\<dots> = 10 ^ nat (k - (?e - 19))" using d by (rule power_int_nonneg_exp)
  finally have q: "?x / ?s = of_int (n * 10 ^ nat (k - (?e - 19)))" by simp
  have "round_pos ?x = of_int (round_half_up (?x / ?s)) * ?s"
    by (simp add: round_pos_def precision_def Let_def)
  also have "\<dots> = (?x / ?s) * ?s" unfolding q round_half_up_of_int ..
  also have "\<dots> = ?x" by simp
  finally show ?thesis .
qed

lemma round_sd_zero: "round_sd 0 = 0"
  by (simp add: round_sd_def)

lemma round_sd_pos: "0 < x \<Longrightarrow> round_sd x = round_pos x"
  by (simp add: round_sd_def)

lemma round_sd_neg: "x < 0 \<Longrightarrow> round_sd x = - round_pos (- x)"
  by (simp add: round_sd_def)

lemma round_sd_minus: "round_sd (- x) = - round_sd x"
  by (simp add: round_sd_def)

lemma round_sd_gt0: "0 < x \<Longrightarrow> 0 < round_sd x"
  by (simp add: round_sd_pos round_pos_pos)

lemma round_sd_lt0: "x < 0 \<Longrightarrow> round_sd x < 0"
  using round_pos_pos [of "- x"] by (simp add: round_sd_neg)

lemma round_sd_ge0: "0 \<le> x \<Longrightarrow> 0 \<le> round_sd x"
  using round_sd_gt0 [of x] by (cases "x = 0") (simp_all add: round_sd_zero)

lemma round_sd_mono:
  assumes xy: "x \<le> y"
  shows "round_sd x \<le> round_sd y"
proof -
  consider "0 < x" | "x = 0" | "x < 0" "0 \<le> y" | "x < 0" "y < 0" by linarith
  then show ?thesis
  proof cases
    case 1
    then have "0 < y" using xy by simp
    then show ?thesis using 1 xy by (simp add: round_sd_pos round_pos_mono)
  next
    case 2
    then show ?thesis using xy round_sd_ge0 [of y] by (simp add: round_sd_zero)
  next
    case 3
    then show ?thesis using round_sd_lt0 [of x] round_sd_ge0 [of y] by linarith
  next
    case 4
    then have "round_pos (- y) \<le> round_pos (- x)" using xy by (intro round_pos_mono) simp_all
    then show ?thesis using 4 by (simp add: round_sd_neg)
  qed
qed

lemma round_sd_exact:
  assumes n: "\<bar>n\<bar> < 10 ^ 20"
  shows "round_sd (of_int n * 10 powi k) = of_int n * 10 powi k"
proof -
  consider "0 < n" | "n = 0" | "n < 0" by linarith
  then show ?thesis
  proof cases
    case 1
    then have "0 < of_int n * (10::rat) powi k" by simp
    then show ?thesis using 1 n by (simp add: round_sd_pos round_pos_exact)
  next
    case 2
    then show ?thesis by (simp add: round_sd_zero)
  next
    case 3
    then have neg: "of_int n * (10::rat) powi k < 0" by (simp add: mult_neg_pos)
    have "round_pos (of_int (- n) * 10 powi k) = of_int (- n) * 10 powi k"
      using 3 n by (intro round_pos_exact) simp_all
    then show ?thesis using neg by (simp add: round_sd_neg)
  qed
qed

lemma round_sd_of_int: "\<bar>n\<bar> < 10 ^ 20 \<Longrightarrow> round_sd (of_int n) = of_int n"
  using round_sd_exact [of n 0] by simp

lemma round_sd_decimal:
  "\<bar>n\<bar> < 10 ^ 20 \<Longrightarrow> round_sd (of_int n / 10 ^ k) = of_int n / 10 ^ k"
  using round_sd_exact [of n "- int k"] by (simp add: power_int_minus_divide)

lemma round_pos_idem:
  assumes x: "0 < x"
  shows "round_pos (round_pos x) = round_pos x"
proof -
  let ?e = "sig_exponent 10 x"
  let ?s = "(10::rat) powi (?e - 19)"
  let ?n = "round_half_up (x / ?s)"
  have r: "round_pos x = of_int ?n * ?s" and n1: "10 ^ 19 \<le> ?n" and n2: "?n \<le> 10 ^ 20"
    using round_pos_decomp [OF x] by blast+
  show ?thesis
  proof (cases "?n = 10 ^ 20")
    case True
    have "(10::rat) ^ 20 * ?s = 10 ^ 19 * (10 powi 1 * ?s)" by simp
    also have "10 powi 1 * ?s = (10::rat) powi (1 + (?e - 19))"
      by (rule power_int_add [symmetric]) simp
    finally have "round_pos x = of_int (10 ^ 19) * 10 powi (1 + (?e - 19))"
      using r True by simp
    moreover have "round_pos (of_int (10 ^ 19) * 10 powi (1 + (?e - 19)))
        = of_int (10 ^ 19) * (10::rat) powi (1 + (?e - 19))"
      by (rule round_pos_exact) simp_all
    ultimately show ?thesis by simp
  next
    case False
    then have "?n < 10 ^ 20" using n2 by simp
    moreover have "0 < ?n" using n1 by simp
    ultimately have "round_pos (of_int ?n * ?s) = of_int ?n * ?s" by (intro round_pos_exact)
    then show ?thesis using r by simp
  qed
qed

lemma round_sd_idem: "round_sd (round_sd x) = round_sd x"
proof -
  consider "0 < x" | "x = 0" | "x < 0" by linarith
  then show ?thesis
  proof cases
    case 1
    then show ?thesis using round_pos_pos [of x] by (simp add: round_sd_pos round_pos_idem)
  next
    case 2
    then show ?thesis by (simp add: round_sd_zero)
  next
    case 3
    then show ?thesis
      using round_pos_pos [of "- x"] by (simp add: round_sd_neg round_sd_minus round_sd_pos round_pos_idem)
  qed
qed

lemma round_sd_upper: "0 < x \<Longrightarrow> round_sd x \<le> x + x / (2 * 10 ^ 19)"
  by (simp only: round_sd_pos round_pos_upper)

lemma round_sd_lower: "0 < x \<Longrightarrow> x - x / (2 * 10 ^ 19) \<le> round_sd x"
  by (simp only: round_sd_pos round_pos_lower)

section \<open>The AMM math\<close>

text \<open>The worked examples: a fee of 30 basis points on 1000, a slippage of 50 on 1000.\<close>

lemma spec_examples:
  "calculateFee (Finite 1000) 30 = Finite 3"
  "amountAfterFee (Finite 1000) 30 = Finite 997"
  "calculateMinOutput (Finite 1000) 50 = Finite 995"
  by (simp_all add: math_eval round_eval)

text \<open>
  Claim C7. \<^verbatim>\<open>calculateMinOutput\<close> and \<^verbatim>\<open>calculateMaxInput\<close> contain no check and cannot
  fail: for the tolerance 20000, above 10000, the minimum output of 1000 is the negative
  value \<open>-1000\<close>, returned as it is, and the maximum input is 3000.
\<close>

theorem calculateMinOutput_returns_negative:
  "calculateMinOutput (Finite 1000) 20000 = Finite (- 1000) \<and>
   calculateMaxInput (Finite 1000) 20000 = Finite 3000"
  by (simp add: math_eval round_eval)

subsection \<open>Rounded operations and their relative error\<close>

lemma eps_bounds: "0 < eps" "eps < 1"
  by (simp_all add: eps_def)

lemma round_sd_le: "0 < x \<Longrightarrow> round_sd x \<le> x * (1 + eps)"
  using round_sd_upper [of x] by (simp add: eps_def field_simps)

lemma round_sd_ge: "0 < x \<Longrightarrow> x * (1 - eps) \<le> round_sd x"
  using round_sd_lower [of x] by (simp add: eps_def field_simps)

lemma round_quotient_upper:
  assumes n: "0 < n" and d: "0 < d"
  shows "round_sd (round_sd n / round_sd d) \<le> n / d * ((1 + eps)\<^sup>2 / (1 - eps))"
proof -
  let ?N = "round_sd n" and ?D = "round_sd d"
  have e1: "0 < 1 - eps" "0 < 1 + eps" using eps_bounds by simp_all
  have N0: "0 < ?N" and D0: "0 < ?D" using n d by (simp_all add: round_sd_gt0)
  have Nu: "?N \<le> n * (1 + eps)" by (rule round_sd_le [OF n])
  have Dl: "d * (1 - eps) \<le> ?D" by (rule round_sd_ge [OF d])
  have dl0: "0 < d * (1 - eps)" using d e1 by simp
  have "?N / ?D \<le> (n * (1 + eps)) / (d * (1 - eps))"
    by (rule frac_le) (use N0 Nu Dl dl0 in simp_all)
  moreover have "round_sd (?N / ?D) \<le> ?N / ?D * (1 + eps)"
    by (rule round_sd_le) (use N0 D0 in simp)
  ultimately have "round_sd (?N / ?D) \<le> (n * (1 + eps)) / (d * (1 - eps)) * (1 + eps)"
    using e1 by (meson mult_right_mono less_imp_le order_trans)
  also have "\<dots> = n / d * ((1 + eps)\<^sup>2 / (1 - eps))"
    by (simp add: power2_eq_square)
  finally show ?thesis .
qed

lemma round_quotient_lower:
  assumes n: "0 < n" and d: "0 < d"
  shows "n / d * ((1 - eps)\<^sup>2 / (1 + eps)) \<le> round_sd (round_sd n / round_sd d)"
proof -
  let ?N = "round_sd n" and ?D = "round_sd d"
  have e1: "0 < 1 - eps" "0 < 1 + eps" using eps_bounds by simp_all
  have N0: "0 < ?N" and D0: "0 < ?D" using n d by (simp_all add: round_sd_gt0)
  have Nl: "n * (1 - eps) \<le> ?N" by (rule round_sd_ge [OF n])
  have Du: "?D \<le> d * (1 + eps)" by (rule round_sd_le [OF d])
  have nl0: "0 \<le> n * (1 - eps)" using n e1 by simp
  have "(n * (1 - eps)) / (d * (1 + eps)) \<le> ?N / ?D"
    by (rule frac_le) (use D0 Nl Du nl0 in simp_all)
  moreover have "?N / ?D * (1 - eps) \<le> round_sd (?N / ?D)"
    by (rule round_sd_ge) (use N0 D0 in simp)
  ultimately have main: "(n * (1 - eps)) / (d * (1 + eps)) * (1 - eps) \<le> round_sd (?N / ?D)"
    using e1 by (meson mult_right_mono less_imp_le order_trans)
  have eq: "(n * (1 - eps)) / (d * (1 + eps)) * (1 - eps) = n / d * ((1 - eps)\<^sup>2 / (1 + eps))"
    by (simp add: power2_eq_square)
  show ?thesis using main unfolding eq .
qed

lemma round_sd_near:
  assumes "0 \<le> x"
  shows "round_sd x \<le> x + x / 20000000000000000000"
    and "x - x / 20000000000000000000 \<le> round_sd x"
  using assms round_sd_upper [of x] round_sd_lower [of x]
  by (cases "x = 0"; simp add: round_sd_zero)+

text \<open>
  Numeric facts about the factors \<open>(1 + eps)\<^sup>2 / (1 - eps)\<close> and
  \<open>(1 - eps)\<^sup>2 / (1 + eps)\<close>, which bound the rounded quotient of two rounded values
  from above and from below.
\<close>

lemma eps_consts:
  "0 < (1 - eps)\<^sup>2 / (1 + eps)"
  "(1 - eps)\<^sup>2 / (1 + eps) \<le> 1"
  "((1 + eps)\<^sup>2 / (1 - eps) - 1) * (65 * 10 ^ 17) < 1"
  "((1 + eps)\<^sup>2 / (1 - eps) - (1 - eps)\<^sup>2 / (1 + eps)) * (3 * 10 ^ 18) < (1 - eps)\<^sup>2 / (1 + eps)"
  "0 \<le> (1 + eps)\<^sup>2 / (1 - eps) - (1 - eps)\<^sup>2 / (1 + eps)"
  "0 \<le> (1 + eps)\<^sup>2 / (1 - eps) - 1"
  by (simp_all add: eps_def power2_eq_square)

lemma eps_consts2:
  "1 - (1 - eps)\<^sup>2 / (1 + eps) \<le> 3 / 20000000000000000000"
  "1 - 9 / 20000000000000000000 \<le> (1 - eps)\<^sup>2 / (1 + eps) * ((1 - eps)\<^sup>2 / (1 + eps)) * (1 - eps) ^ 3"
  "1 - 3 / 20000000000000000000 \<le> (1 - eps) ^ 3"
  "0 < (1 - eps) ^ 3"
  by (simp_all add: eps_def power2_eq_square power3_eq_cube)

lemma frac_less_cross:
  fixes x1 x2 y1 y2 :: rat
  shows "0 < y1 \<Longrightarrow> 0 < y2 \<Longrightarrow> x1 * y2 < x2 * y1 \<Longrightarrow> x1 / y1 < x2 / y2"
  by (simp add: field_simps)

lemma frac_le_cross:
  fixes x1 x2 y1 y2 :: rat
  shows "0 < y1 \<Longrightarrow> 0 < y2 \<Longrightarrow> x1 * y2 \<le> x2 * y1 \<Longrightarrow> x1 / y1 \<le> x2 / y2"
  by (simp add: field_simps)

subsection \<open>The amount after the fee\<close>

lemma amountAfterFee_value:
  assumes f: "0 \<le> f" "f < 10000"
  shows "amountAfterFee (Finite x) f = Finite (after_fee_value x f)"
proof -
  have r1: "round_sd (of_int f / 10 ^ 4) = of_int f / 10 ^ 4"
    by (rule round_sd_decimal) (use f in simp)
  have "div_d (of_bp f) (of_bp BASIS_POINTS) = Finite (round_sd (of_int f / 10 ^ 4))"
    by (simp add: of_bp_def BASIS_POINTS_def)
  then have rate: "div_d (of_bp f) (of_bp BASIS_POINTS) = Finite (of_int f / 10 ^ 4)"
    by (simp only: r1)
  have fee: "calculateFee (Finite x) f = Finite (round_sd (x * (of_int f / 10 ^ 4)))"
    by (simp only: calculateFee_def Let_def rate times_d.simps)
  have "amountAfterFee (Finite x) f
      = Finite (round_sd (x + - round_sd (x * (of_int f / 10 ^ 4))))"
    by (simp only: amountAfterFee_def Let_def fee minus_d_def dneg.simps plus_d.simps)
  then show ?thesis by (simp add: after_fee_value_def)
qed

lemma after_fee_pos:
  assumes "0 \<le> f" "f < 10000" "0 < x"
  shows "0 < after_fee x f" and "after_fee x f \<le> x"
proof -
  have F: "(0::rat) < of_int (10000 - f)" "(of_int (10000 - f) :: rat) \<le> 10000"
    using assms by simp_all
  show "0 < after_fee x f" using F assms(3) by (simp add: after_fee_def)
  have "x * of_int (10000 - f) \<le> x * 10000"
    using F assms(3) by (intro mult_left_mono) simp_all
  then show "after_fee x f \<le> x" by (simp add: after_fee_def)
qed

lemma after_fee_value_bounds:
  assumes f: "0 \<le> f" "f < 10000" and x: "0 < x"
  shows "0 < after_fee_value x f"
    and "after_fee x f - eps * x \<le> after_fee_value x f"
    and "after_fee_value x f \<le> after_fee x f + eps * (1 + eps) * x"
    and "after_fee_value x f \<le> (1 + eps) * x"
proof -
  define P where "P = x * (of_int f / 10 ^ 4)"
  define fee where "fee = round_sd P"
  define d where "d = x - fee"
  define wc where "wc = round_sd d"
  have wc: "after_fee_value x f = wc"
    by (simp add: after_fee_value_def wc_def d_def fee_def P_def)
  have w: "after_fee x f = x - P"
    by (simp add: after_fee_def P_def field_simps)
  have "(of_int f :: rat) \<le> 9999" using f by simp
  then have "(of_int f / 10 ^ 4 :: rat) \<le> 9999 / 10000" by simp
  then have "x * (of_int f / 10 ^ 4) \<le> x * (9999 / 10000)"
    using x by (intro mult_left_mono) simp_all
  then have P1: "P \<le> x * (9999 / 10000)" by (simp only: P_def)
  have P0: "0 \<le> P" using f x by (simp add: P_def)
  have fu: "fee \<le> P + P / 20000000000000000000"
    and fl: "P - P / 20000000000000000000 \<le> fee"
    unfolding fee_def by (rule round_sd_near [OF P0])+
  have d0: "0 < d" using fu P1 x unfolding d_def by linarith
  have d0': "0 \<le> d" using d0 by simp
  have du: "wc \<le> d + d / 20000000000000000000"
    and dl: "d - d / 20000000000000000000 \<le> wc"
    unfolding wc_def by (rule round_sd_near [OF d0'])+
  show "0 < after_fee_value x f" unfolding wc wc_def using d0 by (rule round_sd_gt0)
  have l1: "x - P - x / 20000000000000000000 \<le> wc"
    using dl fu P0 unfolding d_def by (simp add: diff_divide_distrib)
  have l2: "wc \<le> x - P + x / 20000000000000000000 + x / 20000000000000000000 / 20000000000000000000"
    using du fl P0 P1 x unfolding d_def by (simp add: diff_divide_distrib)
  have l3: "wc \<le> x + x / 20000000000000000000"
    using du fl P0 x unfolding d_def by (simp add: diff_divide_distrib)
  show "after_fee x f - eps * x \<le> after_fee_value x f"
    unfolding wc w using l1 by (simp add: eps_def)
  show "after_fee_value x f \<le> after_fee x f + eps * (1 + eps) * x"
    unfolding wc w using l2 by (simp add: eps_def algebra_simps)
  show "after_fee_value x f \<le> (1 + eps) * x"
    unfolding wc using l3 by (simp add: eps_def algebra_simps)
qed

lemma after_fee_value_le:
  assumes f: "0 \<le> f" "f < 10000" and x: "0 < x"
  shows "after_fee_value x f \<le> 21 / 20 * x"
    and "after_fee x f - x / 20000000000000000000 \<le> after_fee_value x f"
    and "after_fee_value x f \<le> after_fee x f + x / 19000000000000000000"
proof -
  have "(1 + eps) * x \<le> 21 / 20 * x"
    using x by (intro mult_right_mono) (simp_all add: eps_def)
  then show "after_fee_value x f \<le> 21 / 20 * x"
    using after_fee_value_bounds(4) [OF f x] by linarith
  show "after_fee x f - x / 20000000000000000000 \<le> after_fee_value x f"
    using after_fee_value_bounds(2) [OF f x] by (simp add: eps_def)
  have "eps * (1 + eps) * x \<le> 1 / 19000000000000000000 * x"
    using x by (intro mult_right_mono) (simp_all add: eps_def)
  then show "after_fee_value x f \<le> after_fee x f + x / 19000000000000000000"
    using after_fee_value_bounds(3) [OF f x] by simp
qed

text \<open>
  For an integer amount below \<open>10\<^sup>1\<^sup>6\<close> the fee and the difference have at most 20
  digits, so nothing is rounded.
\<close>

lemma after_fee_value_exact:
  assumes f: "0 \<le> f" "f < 10000" and a: "a \<in> \<int>" "0 < a" "a < 10 ^ 16"
  shows "after_fee_value a f = after_fee a f"
proof -
  obtain k where k: "a = of_int k" using a(1) by (rule Ints_cases)
  have k0: "0 < k" using a(2) unfolding k by simp
  have "(of_int k :: rat) < of_int (10 ^ 16)" using a(3) unfolding k by simp
  then have "k < 10 ^ 16" by (simp only: of_int_less_iff)
  then have k1: "k < 10000000000000000" by simp
  have "k * f \<le> k * 10000" using k0 f by (intro mult_left_mono) simp_all
  moreover have "0 \<le> k * f" using k0 f by simp
  ultimately have "\<bar>k * f\<bar> < 100000000000000000000" using k1 by linarith
  then have kf: "\<bar>k * f\<bar> < 10 ^ 20" by simp
  have r2: "round_sd (of_int (k * f) / 10 ^ 4) = of_int (k * f) / 10 ^ 4"
    by (rule round_sd_decimal [OF kf])
  have "0 < k * (10000 - f)" using k0 f by simp
  moreover have "k * (10000 - f) \<le> k * 10000" using k0 f by (intro mult_left_mono) simp_all
  ultimately have "\<bar>k * (10000 - f)\<bar> < 100000000000000000000" using k1 by linarith
  then have kw: "\<bar>k * (10000 - f)\<bar> < 10 ^ 20" by simp
  have r3: "round_sd (of_int (k * (10000 - f)) / 10 ^ 4) = of_int (k * (10000 - f)) / 10 ^ 4"
    by (rule round_sd_decimal [OF kw])
  have m: "of_int k * (of_int f / 10 ^ 4) = (of_int (k * f) / 10 ^ 4 :: rat)" by simp
  have s: "of_int k - of_int (k * f) / 10 ^ 4 = (of_int (k * (10000 - f)) / 10 ^ 4 :: rat)"
    by (simp add: field_simps)
  have "after_fee_value a f = round_sd (of_int k - round_sd (of_int (k * f) / 10 ^ 4))"
    unfolding after_fee_value_def k by (simp only: m)
  also have "\<dots> = of_int (k * (10000 - f)) / 10 ^ 4" by (simp only: r2 s r3)
  also have "\<dots> = after_fee a f" unfolding after_fee_def k by simp
  finally show ?thesis .
qed

lemma after_fee_gap:
  "after_fee a2 f - after_fee a1 f = (a2 - a1) * of_int (10000 - f) / 10 ^ 4"
  by (simp add: after_fee_def field_simps)

lemma int_gap:
  fixes a1 a2 :: rat
  assumes "a1 \<in> \<int>" "a2 \<in> \<int>" "a1 < a2"
  shows "1 \<le> a2 - a1"
proof -
  obtain k1 k2 where k: "a1 = of_int k1" "a2 = of_int k2"
    using assms(1,2) by (auto elim!: Ints_cases)
  have "k1 < k2" using assms(3) unfolding k by simp
  then have "1 \<le> k2 - k1" by simp
  then have "(of_int 1 :: rat) \<le> of_int (k2 - k1)" by (simp only: of_int_le_iff)
  then show ?thesis unfolding k by simp
qed

subsection \<open>\<^verbatim>\<open>getAmountOut\<close>\<close>

lemma getAmountOut_value:
  assumes f: "0 \<le> f" "f < 10000" and x: "0 < x" and r: "0 < rin" "0 < rout"
  shows "getAmountOut (Finite x) (Finite rin) (Finite rout) f
    = Inr (Finite (swap_value (after_fee_value x f) rin rout))"
proof -
  have w: "0 < after_fee_value x f" by (rule after_fee_value_bounds(1) [OF f x])
  have "0 < rin + after_fee_value x f" using w r by simp
  then have d: "round_sd (rin + after_fee_value x f) \<noteq> 0" using round_sd_gt0 by fastforce
  have g: "\<not> (lte_d (Finite x) (Finite 0) \<or> lte_d (Finite rin) (Finite 0)
      \<or> lte_d (Finite rout) (Finite 0))"
    using x r by (simp add: lte_d_def eq_d_def)
  show ?thesis
    unfolding getAmountOut_def Let_def amountAfterFee_value [OF f]
    using g d by (simp add: swap_value_def)
qed

lemma swap_value_bounds:
  assumes w: "0 < w" and r: "0 < rin" "0 < rout"
  shows "swap_value w rin rout \<le> swap_exact w rin rout * ((1 + eps)\<^sup>2 / (1 - eps))"
    and "swap_exact w rin rout * ((1 - eps)\<^sup>2 / (1 + eps)) \<le> swap_value w rin rout"
    and "0 < swap_exact w rin rout"
    and "0 < swap_value w rin rout"
proof -
  have n: "0 < w * rout" using w r by simp
  have d: "0 < rin + w" using w r by simp
  show "swap_value w rin rout \<le> swap_exact w rin rout * ((1 + eps)\<^sup>2 / (1 - eps))"
    unfolding swap_value_def swap_exact_def by (rule round_quotient_upper [OF n d])
  show "swap_exact w rin rout * ((1 - eps)\<^sup>2 / (1 + eps)) \<le> swap_value w rin rout"
    unfolding swap_value_def swap_exact_def by (rule round_quotient_lower [OF n d])
  show "0 < swap_exact w rin rout" unfolding swap_exact_def using n d by simp
  have "0 < round_sd (w * rout) / round_sd (rin + w)"
    using n d by (simp add: round_sd_gt0)
  then show "0 < swap_value w rin rout" unfolding swap_value_def by (rule round_sd_gt0)
qed

text \<open>
  Without rounding the quotient is strictly increasing in the amount and stays below
  the output reserve for all positive inputs, and the formula of \<^verbatim>\<open>getAmountIn\<close> inverts
  it exactly.
\<close>

lemma swap_exact_mono:
  assumes "0 < v" "v \<le> w" "0 < rin" "0 < rout"
  shows "swap_exact v rin rout \<le> swap_exact w rin rout"
proof -
  have "v * rin \<le> w * rin" using assms by (intro mult_right_mono) simp_all
  then have "v * (rin + w) \<le> w * (rin + v)" by (simp add: algebra_simps)
  then have "rout * (v * (rin + w)) \<le> rout * (w * (rin + v))"
    using assms(4) by (intro mult_left_mono) simp_all
  then have "(v * rout) * (rin + w) \<le> (w * rout) * (rin + v)" by (simp add: mult_ac)
  then have "(v * rout) / (rin + v) \<le> (w * rout) / (rin + w)"
    using assms by (intro frac_le_cross) simp_all
  then show ?thesis by (simp add: swap_exact_def)
qed

lemma swap_exact_increasing:
  assumes w: "0 < w1" "w1 < w2" and r: "0 < rin" "0 < rout"
  shows "swap_exact w1 rin rout < swap_exact w2 rin rout"
    and "swap_exact w2 rin rout < rout"
proof -
  have w2: "0 < w2" using w by simp
  have d1: "0 < rin + w1" and d2: "0 < rin + w2" using w w2 r by simp_all
  have "w1 * (rin + w2) < w2 * (rin + w1)"
  proof -
    have lt: "w1 * rin < w2 * rin" using w(2) r(1) by (rule mult_strict_right_mono)
    have e1: "w1 * (rin + w2) = w1 * rin + w1 * w2" by (rule distrib_left)
    have e2: "w2 * (rin + w1) = w2 * rin + w1 * w2" by (simp add: distrib_left mult.commute)
    have "w1 * rin + w1 * w2 < w2 * rin + w1 * w2" using lt by (rule add_strict_right_mono)
    then show ?thesis by (simp only: e1 e2)
  qed
  then have "w1 / (rin + w1) < w2 / (rin + w2)"
    by (rule frac_less_cross [OF d1 d2])
  then have "w1 / (rin + w1) * rout < w2 / (rin + w2) * rout"
    using r by (simp only: mult_less_cancel_right_pos)
  then show "swap_exact w1 rin rout < swap_exact w2 rin rout"
    by (simp add: swap_exact_def)
  have "w2 / (rin + w2) < 1" using d2 r by simp
  then have "w2 / (rin + w2) * rout < 1 * rout"
    using r by (simp only: mult_less_cancel_right_pos)
  then show "swap_exact w2 rin rout < rout" by (simp add: swap_exact_def)
qed

lemma swap_exact_inverse:
  assumes w: "0 < w" and r: "0 < rin" "0 < rout"
  shows "rin * swap_exact w rin rout / (rout - swap_exact w rin rout) = w"
proof -
  have d: "rin + w \<noteq> 0" using w r by simp
  have "rout - w * rout / (rin + w) = rout * rin / (rin + w)"
    using d by (simp add: field_simps)
  moreover have "rin * (w * rout / (rin + w)) = w * (rout * rin / (rin + w))"
    by simp
  moreover have "rout * rin / (rin + w) \<noteq> 0" using r d by simp
  ultimately show ?thesis unfolding swap_exact_def by simp
qed

text \<open>
  With rounding, the computed output stays below the output reserve as long as the
  amount after the fee is at most \<open>6.5 * 10\<^sup>1\<^sup>8\<close> times the input reserve, and the outputs
  of two amounts are in strict order as long as the amounts after the fee are far
  enough apart.
\<close>

lemma swap_value_below_reserve:
  assumes w: "0 < w" "w \<le> 65 * 10 ^ 17 * rin" and r: "0 < rin" "0 < rout"
  shows "swap_value w rin rout < rout"
proof -
  define U where "U = (1 + eps)\<^sup>2 / (1 - eps)"
  have U: "0 \<le> U - 1" "(U - 1) * (65 * 10 ^ 17) < 1"
    unfolding U_def by (rule eps_consts)+
  have d: "0 < rin + w" using w r by simp
  have "w * (U - 1) \<le> 65 * 10 ^ 17 * rin * (U - 1)"
    using w(2) U(1) by (rule mult_right_mono)
  also have "\<dots> = (U - 1) * (65 * 10 ^ 17) * rin" by simp
  also have "\<dots> < 1 * rin" using U(2) r(1) by (rule mult_strict_right_mono)
  finally have "w * U < rin + w" by (simp add: algebra_simps)
  then have "rout * (w * U) < rout * (rin + w)"
    using r(2) by (simp only: mult_less_cancel_left_pos)
  then have "(w * rout * U) * 1 < rout * (rin + w)" by (simp add: mult_ac)
  then have "(w * rout * U) / (rin + w) < rout / 1"
    using d by (intro frac_less_cross) simp_all
  then have "swap_exact w rin rout * U < rout" by (simp add: swap_exact_def)
  then show ?thesis using swap_value_bounds(1) [OF w(1) r] unfolding U_def by linarith
qed

lemma swap_value_increasing:
  assumes w: "0 < w1" "w1 < w2" and r: "0 < rin" "0 < rout"
    and gap: "w1 * (rin + w2) \<le> 3 * 10 ^ 18 * ((w2 - w1) * rin)"
  shows "swap_value w1 rin rout < swap_value w2 rin rout"
proof -
  define U where "U = (1 + eps)\<^sup>2 / (1 - eps)"
  define L where "L = (1 - eps)\<^sup>2 / (1 + eps)"
  define A where "A = w1 * (rin + w2)"
  define B where "B = (w2 - w1) * rin"
  have UL: "0 \<le> U - L" "(U - L) * (3 * 10 ^ 18) < L"
    unfolding U_def L_def by (rule eps_consts)+
  have w2: "0 < w2" using w by simp
  have d1: "0 < rin + w1" and d2: "0 < rin + w2" using w w2 r by simp_all
  have B: "0 < B" using w r by (simp add: B_def)
  have AB: "w2 * (rin + w1) = A + B" by (simp add: A_def B_def algebra_simps)
  have gap': "A \<le> 3 * 10 ^ 18 * B" using gap by (simp only: A_def B_def)
  have "(U - L) * A \<le> (U - L) * (3 * 10 ^ 18 * B)"
    using gap' UL(1) by (rule mult_left_mono)
  also have "\<dots> = (U - L) * (3 * 10 ^ 18) * B" by simp
  also have "\<dots> < L * B" using UL(2) B by (rule mult_strict_right_mono)
  finally have "U * A < L * (A + B)" by (simp add: algebra_simps)
  then have lt: "rout * (U * A) < rout * (L * (A + B))"
    using r(2) by (simp only: mult_less_cancel_left_pos)
  have e1: "(w1 * rout * U) * (rin + w2) = rout * (U * A)"
    by (simp add: A_def mult_ac)
  have e2: "(w2 * rout * L) * (rin + w1) = rout * (L * (A + B))"
    unfolding AB [symmetric] by (simp add: mult_ac)
  have "(w1 * rout * U) * (rin + w2) < (w2 * rout * L) * (rin + w1)"
    using lt by (simp only: e1 e2)
  then have "(w1 * rout * U) / (rin + w1) < (w2 * rout * L) / (rin + w2)"
    by (rule frac_less_cross [OF d1 d2])
  then have "swap_exact w1 rin rout * U < swap_exact w2 rin rout * L"
    by (simp add: swap_exact_def)
  then show ?thesis
    using swap_value_bounds(1) [OF w(1) r] swap_value_bounds(2) [OF w2 r]
    unfolding U_def L_def by linarith
qed

lemma getAmountOut_gap_general:
  assumes f: "0 \<le> f" "f < 10000" and a: "0 < a1" "a1 < a2" and r: "0 < rin" "0 < rout"
    and gap: "a2 * (a2 + rin) * 10000 \<le> 2 * 10 ^ 18 * ((a2 - a1) * of_int (10000 - f) * rin)"
  shows "swap_value (after_fee_value a1 f) rin rout < swap_value (after_fee_value a2 f) rin rout"
proof -
  define c1 where "c1 = after_fee_value a1 f"
  define c2 where "c2 = after_fee_value a2 f"
  define g where "g = after_fee a2 f - after_fee a1 f"
  define M where "M = a2 * (a2 + rin)"
  define G where "G = g * rin"
  define AR where "AR = a2 * rin"
  define Lh where "Lh = c1 * (rin + c2)"
  define D where "D = (c2 - c1) * rin"
  have a2: "0 < a2" using a by simp
  have c10: "0 < c1" unfolding c1_def by (rule after_fee_value_bounds(1) [OF f a(1)])
  have c1u: "c1 \<le> 21 / 20 * a1" and c1w: "c1 \<le> after_fee a1 f + a1 / 19000000000000000000"
    unfolding c1_def using after_fee_value_le [OF f a(1)] by simp_all
  have c2u: "c2 \<le> 21 / 20 * a2" and c2w: "after_fee a2 f - a2 / 20000000000000000000 \<le> c2"
    unfolding c2_def using after_fee_value_le [OF f a2] by simp_all
  have c20: "0 < c2" unfolding c2_def by (rule after_fee_value_bounds(1) [OF f a2])
  have g10: "g * 10000 = (a2 - a1) * of_int (10000 - f)"
    unfolding g_def after_fee_gap by simp
  have "M * 10000 \<le> 2 * 10 ^ 18 * (g * 10000 * rin)"
    using gap unfolding M_def g10 .
  then have MG: "M \<le> 2000000000000000000 * G" by (simp add: G_def)
  have AR0: "0 \<le> AR" using a2 r by (simp add: AR_def)
  have ARM: "AR \<le> M" using a2 by (simp add: AR_def M_def algebra_simps)
  have M0: "0 \<le> M" using AR0 ARM by linarith
  have pre: "c1 * (rin + c2) \<le> (21 / 20 * a2) * (21 / 20 * (a2 + rin))"
  proof (rule mult_mono)
    show "c1 \<le> 21 / 20 * a2" using c1u a by linarith
    show "rin + c2 \<le> 21 / 20 * (a2 + rin)" using c2u r by (simp add: distrib_left)
    show "0 \<le> 21 / 20 * a2" using a2 by simp
    show "0 \<le> rin + c2" using c20 r by simp
  qed
  have e: "(21 / 20 * a2) * (21 / 20 * (a2 + rin)) = 441 / 400 * (a2 * (a2 + rin))"
    by (simp add: algebra_simps)
  have h1: "Lh \<le> 441 / 400 * M" using pre unfolding e Lh_def M_def .
  have dlow: "g - a2 / 20000000000000000000 - a2 / 19000000000000000000 \<le> c2 - c1"
    using c2w c1w a unfolding g_def by (simp add: field_simps)
  have "(g - a2 / 20000000000000000000 - a2 / 19000000000000000000) * rin \<le> (c2 - c1) * rin"
    using dlow r(1) by (intro mult_right_mono) simp_all
  then have h2: "G - AR / 20000000000000000000 - AR / 19000000000000000000 \<le> D"
    by (simp add: G_def AR_def D_def algebra_simps)
  have "0 < Lh" using c10 c20 r by (simp add: Lh_def)
  then have D0: "0 < D" using h1 h2 MG ARM AR0 by linarith
  have lt: "c1 < c2"
  proof (rule ccontr)
    assume "\<not> c1 < c2"
    then have "(c2 - c1) * rin \<le> 0" using r by (simp add: mult_le_0_iff)
    then show False using D0 by (simp add: D_def)
  qed
  have "Lh \<le> 3000000000000000000 * D" using h1 h2 MG ARM AR0 M0 by linarith
  then have "c1 * (rin + c2) \<le> 3 * 10 ^ 18 * ((c2 - c1) * rin)"
    by (simp add: Lh_def D_def)
  then show ?thesis unfolding c1_def [symmetric] c2_def [symmetric]
    by (rule swap_value_increasing [OF c10 lt r])
qed

lemma getAmountOut_gap_integer:
  assumes f: "0 \<le> f" "f < 10000" and a: "0 < a1" "a1 < a2" and r: "0 < rin" "0 < rout"
    and i: "a1 \<in> \<int>" "a2 \<in> \<int>" "a2 < 10 ^ 16"
    and gap: "a2 * (a2 + rin) \<le> 3 * 10 ^ 18 * rin"
  shows "swap_value (after_fee_value a1 f) rin rout < swap_value (after_fee_value a2 f) rin rout"
proof -
  define p :: rat where "p = of_int (10000 - f) / 10 ^ 4"
  have p: "0 < p" "p \<le> 1" using f by (simp_all add: p_def)
  have a2: "0 < a2" using a by simp
  have a1': "a1 < 10 ^ 16" using a i by simp
  have e1: "after_fee_value a1 f = a1 * p"
    using after_fee_value_exact [OF f i(1) a(1) a1'] by (simp add: after_fee_def p_def)
  have e2: "after_fee_value a2 f = a2 * p"
    using after_fee_value_exact [OF f i(2) a2 i(3)] by (simp add: after_fee_def p_def)
  have w1: "0 < a1 * p" using a p by simp
  have w12: "a1 * p < a2 * p" using a p by simp
  have one: "1 \<le> a2 - a1" by (rule int_gap [OF i(1,2) a(2)])
  have "a1 * p * (rin + a2 * p) \<le> a2 * p * (rin + a2)"
  proof (rule mult_mono)
    show "a1 * p \<le> a2 * p" using w12 by simp
    have "a2 * p \<le> a2 * 1" using a2 p by (intro mult_left_mono) simp_all
    then show "rin + a2 * p \<le> rin + a2" by simp
    show "0 \<le> a2 * p" using a2 p by simp
    show "0 \<le> rin + a2 * p" using a2 p r by simp
  qed
  also have "\<dots> = p * (a2 * (a2 + rin))" by (simp add: algebra_simps)
  also have "\<dots> \<le> p * (3 * 10 ^ 18 * rin)" using gap p by (intro mult_left_mono) simp_all
  also have "\<dots> = 3 * 10 ^ 18 * (1 * (p * rin))" by simp
  also have "\<dots> \<le> 3 * 10 ^ 18 * ((a2 - a1) * (p * rin))"
    using one p r by (intro mult_left_mono mult_right_mono) simp_all
  also have "\<dots> = 3 * 10 ^ 18 * ((a2 * p - a1 * p) * rin)" by (simp add: algebra_simps)
  finally have "a1 * p * (rin + a2 * p) \<le> 3 * 10 ^ 18 * ((a2 * p - a1 * p) * rin)" .
  then show ?thesis unfolding e1 e2 by (rule swap_value_increasing [OF w1 w12 r])
qed

lemma after_fee_below_reserve:
  assumes f: "0 \<le> f" "f < 10000" and x: "0 < x" "x \<le> 6 * 10 ^ 18 * rin" and r: "0 < rin" "0 < rout"
  shows "swap_value (after_fee_value x f) rin rout < rout"
proof -
  have c0: "0 < after_fee_value x f" by (rule after_fee_value_bounds(1) [OF f x(1)])
  have "after_fee_value x f \<le> 21 / 20 * x" by (rule after_fee_value_le(1) [OF f x(1)])
  also have "\<dots> \<le> 21 / 20 * (6 * 10 ^ 18 * rin)" using x(2) by (intro mult_left_mono) simp_all
  also have "\<dots> \<le> 65 * 10 ^ 17 * rin" using r by simp
  finally show ?thesis by (rule swap_value_below_reserve [OF c0 _ r])
qed

text \<open>
  Claim C2, as stated, fails: every operation rounds to 20 significant digits, so the
  outputs computed for two different amounts can coincide or even decrease, and the
  output can reach the output reserve.

  \<^item> Amounts large against the input reserve. With both reserves 1 and no fee the
    amounts \<open>10\<^sup>1\<^sup>2\<close> and \<open>10\<^sup>1\<^sup>2 + 1\<close> give the same output \<open>0.999999999999\<close>, and the amount
    \<open>10\<^sup>2\<^sup>0\<close> gives the output 1, the whole reserve.

  \<^item> The same, closer to the bounds of the amended statement. The amounts 10012283005
    and 10012283006, with the reserves \<open>18.2\<close> and \<open>10.231017\<close> and a fee of 30 basis
    points, give the same output; the amount 11409416338347106304, with the input
    reserve \<open>1.467\<close> and no fee, gives the whole output reserve \<open>1000.0610889\<close>.

  \<^item> Amounts of ordinary size that differ in their last digits only:
    \<open>111.93061447013456804\<close> and \<open>111.930614470134568068\<close>, with the reserves 1000 and 10000
    and a fee of 30 basis points, give the same output.

  \<^item> A high fee, which leaves little of the difference of two amounts; the fee is itself
    rounded. With a fee of 9999 basis points \<open>104.89197477117065543\<close> and
    \<open>104.89197477117075\<close> give the same output, and of the integer amounts
    10001000100010001 and 10001000100010002 the larger gives the smaller output.

  The inequalities at the end say how far these inputs are from the bounds of the
  amended statement.
\<close>

theorem getAmountOut_not_strictly_increasing:
  "getAmountOut (Finite 1000000000000) (Finite 1) (Finite 1) 0
     = Inr (Finite (999999999999 / 1000000000000)) \<and>
   getAmountOut (Finite 1000000000001) (Finite 1) (Finite 1) 0
     = Inr (Finite (999999999999 / 1000000000000)) \<and>
   getAmountOut (Finite 100000000000000000000) (Finite 1) (Finite 1) 0 = Inr (Finite 1) \<and>
   getAmountOut (Finite 10012283005) (Finite (182 / 10)) (Finite (10231017 / 1000000)) 30
     = Inr (Finite (10231016981346431841 / 1000000000000000000)) \<and>
   getAmountOut (Finite 10012283006) (Finite (182 / 10)) (Finite (10231017 / 1000000)) 30
     = Inr (Finite (10231016981346431841 / 1000000000000000000)) \<and>
   getAmountOut (Finite 11409416338347106304) (Finite (1467 / 1000))
     (Finite (10000610889 / 10000000)) 0 = Inr (Finite (10000610889 / 10000000)) \<and>
   getAmountOut (Finite (11193061447013456804 / 100000000000000000)) (Finite 1000)
     (Finite 10000) 30 = Inr (Finite (10039163583276056343 / 10000000000000000)) \<and>
   getAmountOut (Finite (111930614470134568068 / 1000000000000000000)) (Finite 1000)
     (Finite 10000) 30 = Inr (Finite (10039163583276056343 / 10000000000000000)) \<and>
   getAmountOut (Finite (10489197477117065543 / 100000000000000000)) (Finite 1000000000000)
     (Finite 2000) 9999 = Inr (Finite (20978394954233919953 / 10 ^ 30)) \<and>
   getAmountOut (Finite (10489197477117075 / 100000000000000)) (Finite 1000000000000)
     (Finite 2000) 9999 = Inr (Finite (20978394954233919953 / 10 ^ 30)) \<and>
   getAmountOut (Finite 10001000100010001) (Finite 1000000000000000000) (Finite 1) 9999
     = Inr (Finite (10000990098019703951 / 10 ^ 25)) \<and>
   getAmountOut (Finite 10001000100010002) (Finite 1000000000000000000) (Finite 1) 9999
     = Inr (Finite (10000990098019702951 / 10 ^ 25)) \<and>
   (10000990098019702951 / 10 ^ 25 :: rat) < 10000990098019703951 / 10 ^ 25 \<and>
   (10012283006 * (10012283006 + 182 / 10) \<le> 6 * 10 ^ 18 * (182 / 10 :: rat)) \<and>
   (11409416338347106304 \<le> 8 * 10 ^ 18 * (1467 / 1000 :: rat)) \<and>
   (111930614470134568068 / 1000000000000000000
      * (111930614470134568068 / 1000000000000000000 + 1000) * 10000
    \<le> 5 * 10 ^ 18 * ((111930614470134568068 / 1000000000000000000
          - 11193061447013456804 / 100000000000000000) * of_int (10000 - 30) * (1000 :: rat))) \<and>
   (10001000100010002 * (10001000100010002 + 1000000000000000000)
    \<le> 3 * 10 ^ 18 * (1000000000000000000 :: rat))"
  by (simp add: math_eval round_eval)

text \<open>
  Claim C2, amended. For all positive reserves, every fee \<open>0 \<le> f < 10000\<close> and all
  amounts \<open>0 < a1 < a2\<close>, \<^verbatim>\<open>getAmountOut\<close> returns an output for both. Both outputs are
  strictly less than the output reserve if \<open>a2\<close> is at most \<open>6 * 10\<^sup>1\<^sup>8\<close> times the input
  reserve. The output for \<open>a1\<close> is strictly less than the output for \<open>a2\<close> if the amounts
  are far enough apart,
  \<open>a2 * (a2 + reserveIn) \<le> 2 * 10\<^sup>1\<^sup>8 * (a2 - a1) * (1 - f / 10000) * reserveIn\<close>,
  or if both are integers below \<open>10\<^sup>1\<^sup>6\<close> (the fee of which is computed exactly) and
  \<open>a2 * (a2 + reserveIn) \<le> 3 * 10\<^sup>1\<^sup>8 * reserveIn\<close>.
\<close>

theorem getAmountOut_increasing_below_reserve:
  assumes "0 \<le> f" "f < 10000" "0 < a1" "a1 < a2" "0 < rin" "0 < rout"
  shows "\<exists>o1 o2.
     getAmountOut (Finite a1) (Finite rin) (Finite rout) f = Inr (Finite o1) \<and>
     getAmountOut (Finite a2) (Finite rin) (Finite rout) f = Inr (Finite o2) \<and>
     (a2 \<le> 6 * 10 ^ 18 * rin \<longrightarrow> o1 < rout \<and> o2 < rout) \<and>
     (a2 * (a2 + rin) * 10000 \<le> 2 * 10 ^ 18 * ((a2 - a1) * of_int (10000 - f) * rin) \<or>
      a1 \<in> \<int> \<and> a2 \<in> \<int> \<and> a2 < 10 ^ 16 \<and> a2 * (a2 + rin) \<le> 3 * 10 ^ 18 * rin
        \<longrightarrow> o1 < o2)"
proof -
  let ?o1 = "swap_value (after_fee_value a1 f) rin rout"
  let ?o2 = "swap_value (after_fee_value a2 f) rin rout"
  have f: "0 \<le> f" "f < 10000" by fact+
  have a: "0 < a1" "a1 < a2" by fact+
  have a2: "0 < a2" using a by simp
  have r: "0 < rin" "0 < rout" by fact+
  have v1: "getAmountOut (Finite a1) (Finite rin) (Finite rout) f = Inr (Finite ?o1)"
    by (rule getAmountOut_value [OF f a(1) r])
  have v2: "getAmountOut (Finite a2) (Finite rin) (Finite rout) f = Inr (Finite ?o2)"
    by (rule getAmountOut_value [OF f a2 r])
  have b: "?o1 < rout \<and> ?o2 < rout" if h: "a2 \<le> 6 * 10 ^ 18 * rin"
  proof -
    have "a1 \<le> 6 * 10 ^ 18 * rin" using h a by linarith
    then show ?thesis
      using after_fee_below_reserve [OF f a(1) _ r] after_fee_below_reserve [OF f a2 h r]
      by simp
  qed
  have s: "?o1 < ?o2"
    if h: "a2 * (a2 + rin) * 10000 \<le> 2 * 10 ^ 18 * ((a2 - a1) * of_int (10000 - f) * rin) \<or>
      a1 \<in> \<int> \<and> a2 \<in> \<int> \<and> a2 < 10 ^ 16 \<and> a2 * (a2 + rin) \<le> 3 * 10 ^ 18 * rin"
    using h getAmountOut_gap_general [OF f a r] getAmountOut_gap_integer [OF f a r] by blast
  show ?thesis using v1 v2 b s by blast
qed

theorem getAmountOut_increasing_below_reserve_witness:
  "(200 \<le> 6 * 10 ^ 18 * (1000 :: rat)) \<and>
   (200 * (200 + 1000) * 10000 \<le> 2 * 10 ^ 18 * ((200 - 100) * of_int (10000 - 30) * (1000 :: rat))) \<and>
   getAmountOut (Finite 100) (Finite 1000) (Finite 2000) 30
     = Inr (Finite (18132217877602982632 / 100000000000000000)) \<and>
   getAmountOut (Finite 200) (Finite 1000) (Finite 2000) 30
     = Inr (Finite (33249958312489578122 / 100000000000000000)) \<and>
   (18132217877602982632 / 100000000000000000 :: rat) < 33249958312489578122 / 100000000000000000 \<and>
   (33249958312489578122 / 100000000000000000 :: rat) < 2000 \<and>
   (1000000000000001 \<in> (\<int> :: rat set)) \<and> (1000000000000001 < (10 ^ 16 :: rat)) \<and>
   (1000000000000001 * (1000000000000001 + 1000000000000000)
      \<le> 3 * 10 ^ 18 * (1000000000000000 :: rat)) \<and>
   getAmountOut (Finite 1000000000000000) (Finite 1000000000000000) (Finite 2000) 9999
     = Inr (Finite (19998000199980002 / 100000000000000000)) \<and>
   getAmountOut (Finite 1000000000000001) (Finite 1000000000000000) (Finite 2000) 9999
     = Inr (Finite (19998000199980021996 / 100000000000000000000)) \<and>
   (19998000199980002 / 100000000000000000 :: rat)
     < 19998000199980021996 / 100000000000000000000 \<and>
   (2001 * (2001 + 1000) * 10000
      \<le> 2 * 10 ^ 18 * ((2001 - 2000) * of_int (10000 - 30) * (1000 :: rat))) \<and>
   getAmountOut (Finite 2000) (Finite 1000) (Finite 2000) 30
     = Inr (Finite (13319973279893119572 / 10000000000000000)) \<and>
   getAmountOut (Finite 2001) (Finite 1000) (Finite 2000) 30
     = Inr (Finite (1332219698383671169 / 1000000000000000)) \<and>
   (13319973279893119572 / 10000000000000000 :: rat) < 1332219698383671169 / 1000000000000000 \<and>
   (1332219698383671169 / 1000000000000000 :: rat) < 2000"
  using getAmountOut_increasing_below_reserve [of 30 100 200 1000 2000]
    getAmountOut_increasing_below_reserve
      [of 9999 1000000000000000 1000000000000001 1000000000000000 2000]
    getAmountOut_increasing_below_reserve [of 30 2000 2001 1000 2000]
  by (simp add: math_eval round_eval)

subsection \<open>\<^verbatim>\<open>getAmountIn\<close> after \<^verbatim>\<open>getAmountOut\<close>\<close>

lemma getAmountIn_value:
  assumes f: "f < 10000" and o: "0 < out" "out < rout" and r: "0 < rin"
  shows "getAmountIn (Finite out) (Finite rin) (Finite rout) f
    = Inr (Finite (in_value out rin rout f))"
proof -
  have rout: "0 < rout" using o by simp
  have g: "\<not> (lte_d (Finite out) (Finite 0) \<or> lte_d (Finite rin) (Finite 0)
      \<or> lte_d (Finite rout) (Finite 0))" "\<not> gte_d (Finite out) (Finite rout)"
    using o r rout by (simp_all add: lte_d_def gte_d_def eq_d_def)
  have "0 < rout + - out" using o by simp
  then have d: "round_sd (rout + - out) \<noteq> 0" using round_sd_gt0 by fastforce
  have F: "(of_int (10000 - f) :: rat) \<noteq> 0" using f by simp
  have m: "rout + - out = rout - out" by simp
  show ?thesis
    unfolding getAmountIn_def Let_def
    using g d F
    by (simp add: in_value_def minus_d_def of_bp_def BASIS_POINTS_def)
qed

lemma in_value_lower:
  assumes f: "0 \<le> f" "f < 10000" and o: "0 < out" "out < rout" and r: "0 < rin"
  shows "(rin * out / (rout - out) * ((1 - eps)\<^sup>2 / (1 + eps)) + 1) * (1 - eps) ^ 3
      * (10000 / of_int (10000 - f)) \<le> in_value out rin rout f"
proof -
  let ?L = "(1 - eps)\<^sup>2 / (1 + eps)" and ?E = "1 - eps"
  let ?F = "of_int (10000 - f) :: rat"
  let ?q = "round_sd (round_sd (rin * out) / round_sd (rout - out))"
  let ?q1 = "round_sd (?q + 1)"
  let ?m = "round_sd (?q1 * 10000)"
  have E: "0 < ?E" using eps_bounds by simp
  have F: "0 < ?F" using f by simp
  have n: "0 < rin * out" using o r by simp
  have d: "0 < rout - out" using o by simp
  have t0: "0 < rin * out / (rout - out) * ?L" using n d eps_bounds by simp
  have q: "rin * out / (rout - out) * ?L \<le> ?q" by (rule round_quotient_lower [OF n d])
  have q0: "0 < ?q + 1" using q t0 by linarith
  have q1: "(?q + 1) * ?E \<le> ?q1" by (rule round_sd_ge [OF q0])
  have q10: "0 < ?q1" using q0 by (rule round_sd_gt0)
  have m: "?q1 * 10000 * ?E \<le> ?m" by (rule round_sd_ge) (use q10 in simp)
  have m0: "0 < ?m" by (rule round_sd_gt0) (use q10 in simp)
  have res: "?m / ?F * ?E \<le> round_sd (?m / ?F)" by (rule round_sd_ge) (use m0 F in simp)
  have s1: "(rin * out / (rout - out) * ?L + 1) * ?E \<le> ?q1"
  proof -
    have "(rin * out / (rout - out) * ?L + 1) * ?E \<le> (?q + 1) * ?E"
      using q E by (intro mult_right_mono) simp_all
    then show ?thesis using q1 by linarith
  qed
  have s2: "(rin * out / (rout - out) * ?L + 1) * ?E * 10000 * ?E \<le> ?m"
  proof -
    have "(rin * out / (rout - out) * ?L + 1) * ?E * 10000 \<le> ?q1 * 10000"
      using s1 by (intro mult_right_mono) simp_all
    then have "(rin * out / (rout - out) * ?L + 1) * ?E * 10000 * ?E \<le> ?q1 * 10000 * ?E"
      using E by (intro mult_right_mono) simp_all
    then show ?thesis using m by (rule order_trans)
  qed
  have s3: "(rin * out / (rout - out) * ?L + 1) * ?E * 10000 * ?E / ?F * ?E \<le> ?m / ?F * ?E"
    using s2 E F by (intro mult_right_mono divide_right_mono) simp_all
  have eq: "(rin * out / (rout - out) * ?L + 1) * ?E * 10000 * ?E / ?F * ?E
      = (rin * out / (rout - out) * ?L + 1) * ?E ^ 3 * (10000 / ?F)"
    by (simp add: power3_eq_cube)
  show ?thesis unfolding in_value_def using s3 res unfolding eq by linarith
qed

text \<open>
  The exact inverse \<open>reserveIn * out / (reserveOut - out)\<close> of an output that is too small
  by the factor \<open>L\<close> falls short of the amount by a factor that grows with the ratio of
  the amount to the input reserve.
\<close>

lemma swap_ratio_lower:
  fixes w rin rout out L :: rat
  assumes w: "0 < w" and r: "0 < rin" and L: "0 < L" "L \<le> 1"
    and o: "0 < out" "out < rout" "swap_exact w rin rout * L \<le> out"
  shows "w * L * rin / (rin + w * (1 - L)) \<le> rin * out / (rout - out)"
proof -
  have d: "0 < rin + w" using w r by simp
  have "swap_exact w rin rout * L * (rin + w) \<le> out * (rin + w)"
    using o(3) d by (intro mult_right_mono) simp_all
  moreover have "swap_exact w rin rout * L * (rin + w) = w * L * rout"
    using d by (simp add: swap_exact_def)
  ultimately have k2: "w * L * rout \<le> out * (rin + w)" by simp
  have "0 \<le> w * (1 - L)" using w L by simp
  then have d1: "0 < rin + w * (1 - L)" using r by linarith
  have d2: "0 < rout - out" using o by simp
  have "rin * (w * L * rout) \<le> rin * (out * (rin + w))"
    using k2 r by (intro mult_left_mono) simp_all
  moreover have "(w * L * rin) * (rout - out) = rin * (w * L * rout) - rin * out * (w * L)"
    by (simp add: algebra_simps)
  moreover have "(rin * out) * (rin + w * (1 - L)) = rin * (out * (rin + w)) - rin * out * (w * L)"
    by (simp add: algebra_simps)
  ultimately have "(w * L * rin) * (rout - out) \<le> (rin * out) * (rin + w * (1 - L))"
    by linarith
  then show ?thesis by (rule frac_le_cross [OF d1 d2])
qed

lemma roundtrip_lower:
  assumes f: "0 \<le> f" "f < 10000" and x: "0 < x" and r: "0 < rin" "0 < rout"
    and H: "x * (x + 4 * rin) \<le> 6 * 10 ^ 18 * rin"
    and ov: "out = swap_value (after_fee_value x f) rin rout" "out < rout"
  shows "x \<le> in_value out rin rout f"
proof -
  define L where "L = (1 - eps)\<^sup>2 / (1 + eps)"
  define E3 where "E3 = (1 - eps) ^ 3"
  define F :: rat where "F = of_int (10000 - f)"
  define c where "c = after_fee_value x f"
  define w where "w = after_fee x f"
  define v where "v = w - x / 20000000000000000000"
  define T where "T = rin * out / (rout - out)"
  define D1 where "D1 = rin + 3 * x / 20000000000000000000"
  define XX where "XX = x * x"
  define XR where "XR = x * rin"
  define WR where "WR = w * rin"
  define XW where "XW = x * w"
  define VR where "VR = v * rin"
  have L: "0 < L" "L \<le> 1" "1 - L \<le> 3 / 20000000000000000000"
    unfolding L_def by (rule eps_consts(1) eps_consts(2) eps_consts2(1))+
  have K: "1 - 9 / 20000000000000000000 \<le> L * L * E3" "1 - 3 / 20000000000000000000 \<le> E3" "0 < E3"
    unfolding L_def E3_def by (rule eps_consts2(2) eps_consts2(3) eps_consts2(4))+
  have F: "0 < F" "F \<le> 10000" using f by (simp_all add: F_def)
  have w: "0 < w" "w \<le> x" unfolding w_def using after_fee_pos [OF f x] by simp_all
  have wF: "w * 10000 = x * F" by (simp add: w_def after_fee_def F_def)
  have "x * 1 \<le> x * F" using x f by (intro mult_left_mono) (simp_all add: F_def)
  then have wlow: "x / 10000 \<le> w" using wF by simp
  have v0: "0 < v" unfolding v_def using wlow x by simp
  have vx: "v \<le> x" unfolding v_def using w x by simp
  have c0: "0 < c" unfolding c_def by (rule after_fee_value_bounds(1) [OF f x])
  have vc: "v \<le> c" unfolding v_def c_def w_def
    using after_fee_value_le(2) [OF f x] by simp
  have o0: "0 < out" unfolding ov(1) c_def [symmetric] by (rule swap_value_bounds(4) [OF c0 r])
  have "swap_exact v rin rout * L \<le> swap_exact c rin rout * L"
    using swap_exact_mono [OF v0 vc r] L by (intro mult_right_mono) simp_all
  also have "\<dots> \<le> out" unfolding ov(1) c_def [symmetric] L_def
    by (rule swap_value_bounds(2) [OF c0 r])
  finally have ol: "swap_exact v rin rout * L \<le> out" .
  have T0: "v * L * rin / (rin + v * (1 - L)) \<le> T"
    unfolding T_def by (rule swap_ratio_lower [OF v0 r(1) L(1,2) o0 ov(2) ol])
  have D10: "0 < D1" "rin \<le> D1" unfolding D1_def using x r by simp_all
  have "v * (1 - L) \<le> x * (3 / 20000000000000000000)"
    using vx L v0 by (intro mult_mono) simp_all
  then have dd: "rin + v * (1 - L) \<le> D1" unfolding D1_def by simp
  have "0 \<le> v * (1 - L)" using v0 L by simp
  then have d0: "0 < rin + v * (1 - L)" using r by linarith
  have n0: "0 \<le> v * L * rin" using v0 L r by simp
  have "v * L * rin / D1 \<le> v * L * rin / (rin + v * (1 - L))"
    by (rule divide_left_mono [OF dd n0]) (use D10 d0 in simp)
  then have T1: "v * L * rin / D1 \<le> T" using T0 by linarith
  have low: "(T * L + 1) * E3 * (10000 / F) \<le> in_value out rin rout f"
    unfolding T_def L_def E3_def F_def by (rule in_value_lower [OF f o0 ov(2) r(1)])
  have XRdef: "0 \<le> XR" "0 \<le> XX" using x r by (simp_all add: XR_def XX_def)
  have WRX: "WR \<le> XR" "0 \<le> WR" using w r by (simp_all add: WR_def XR_def)
  have XWX: "XW \<le> XX" using w x by (simp add: XW_def XX_def)
  have VRdef: "VR = WR - XR / 20000000000000000000"
    by (simp add: VR_def v_def WR_def XR_def algebra_simps)
  have VR0: "0 \<le> VR" using v0 r by (simp add: VR_def)
  have Hn: "XX + 4 * XR \<le> 6000000000000000000 * rin"
    using H by (simp add: XX_def XR_def algebra_simps)
  have "(1 - 9 / 20000000000000000000) * VR \<le> L * L * E3 * VR"
    using K(1) VR0 by (rule mult_right_mono)
  then have n1: "VR - 9 * VR / 20000000000000000000 \<le> L * L * E3 * VR"
    by (simp add: algebra_simps)
  have "(1 - 3 / 20000000000000000000) * rin \<le> E3 * D1"
    using K(2) D10 r K(3) by (intro mult_mono) simp_all
  then have n2: "rin - 3 * rin / 20000000000000000000 \<le> E3 * D1"
    by (simp add: algebra_simps)
  have wD: "w * D1 = WR + 3 * XW / 20000000000000000000"
    unfolding D1_def by (simp add: WR_def XW_def algebra_simps)
  have key: "w * D1 \<le> L * L * E3 * VR + E3 * D1"
    unfolding wD using n1 n2 VRdef WRX XWX Hn XRdef by linarith
  have "(v * L * rin / D1 * L + 1) * E3 = (L * L * E3 * VR + E3 * D1) / D1"
    using D10 by (simp add: VR_def field_simps)
  then have "w \<le> (v * L * rin / D1 * L + 1) * E3"
    using key D10 by (simp add: pos_le_divide_eq)
  also have "\<dots> \<le> (T * L + 1) * E3"
    using T1 L K(3) by (intro mult_right_mono add_right_mono) simp_all
  finally have "w * (10000 / F) \<le> (T * L + 1) * E3 * (10000 / F)"
    using F by (intro mult_right_mono) simp_all
  moreover have "w * (10000 / F) = x" using wF F by (simp add: field_simps)
  ultimately show ?thesis using low by linarith
qed

text \<open>
  Claim C1, as stated, fails for the same reason. The subtraction
  \<^verbatim>\<open>reserveOut - amountOut\<close> amplifies the rounding error of the output by the ratio of
  the amount to the input reserve, beyond the one unit that \<^verbatim>\<open>getAmountIn\<close> adds. With
  both reserves 1 and no fee the amount \<open>10\<^sup>1\<^sup>2 + 1\<close> is a valid input, its output
  \<open>0.999999999999\<close> is accepted by \<^verbatim>\<open>getAmountIn\<close>, and the required input quoted for it
  is \<open>10\<^sup>1\<^sup>2\<close>, less than the amount. The amount 100972217243, with the reserves
  \<open>1412.405369105\<close> and \<open>100001.24543\<close> and no fee, is quoted \<open>100972217242.93775917\<close>; for
  it \<open>x * (x + 4 * reserveIn)\<close> is less than \<open>8 * 10\<^sup>1\<^sup>8 * reserveIn\<close>, close to the bound of the
  amended statement.
\<close>

theorem getAmountIn_underquotes:
  "getAmountOut (Finite 1000000000001) (Finite 1) (Finite 1) 0
     = Inr (Finite (999999999999 / 1000000000000)) \<and>
   getAmountIn (Finite (999999999999 / 1000000000000)) (Finite 1) (Finite 1) 0
     = Inr (Finite 1000000000000) \<and>
   (1000000000000 :: rat) < 1000000000001 \<and>
   getAmountOut (Finite 100972217243) (Finite (1412405369105 / 1000000000))
     (Finite (10000124543 / 100000)) 0
     = Inr (Finite (10000124403117666181 / 100000000000000)) \<and>
   getAmountIn (Finite (10000124403117666181 / 100000000000000))
     (Finite (1412405369105 / 1000000000)) (Finite (10000124543 / 100000)) 0
     = Inr (Finite (10097221724293775917 / 100000000)) \<and>
   (10097221724293775917 / 100000000 :: rat) < 100972217243 \<and>
   (100972217243 * (100972217243 + 4 * (1412405369105 / 1000000000))
      \<le> 8 * 10 ^ 18 * (1412405369105 / 1000000000 :: rat))"
  by (simp add: math_eval round_eval)

text \<open>
  Claim C1, amended. For all positive reserves, every fee \<open>0 \<le> f < 10000\<close> and every
  amount \<open>x > 0\<close> with \<open>x * (x + 4 * reserveIn) \<le> 6 * 10\<^sup>1\<^sup>8 * reserveIn\<close>: \<^verbatim>\<open>getAmountOut\<close>
  returns an output; if the output is less than the output reserve, which is what
  \<^verbatim>\<open>getAmountIn\<close> requires of it, then \<^verbatim>\<open>getAmountIn\<close> returns for it, and the input it
  quotes is at least \<open>x\<close>. The output is less than the output reserve whenever \<open>x\<close> is at
  least 1 or at most \<open>6 * 10\<^sup>1\<^sup>8\<close> times the input reserve.
\<close>

theorem getAmountIn_covers_getAmountOut:
  assumes "0 \<le> f" "f < 10000" "0 < x" "0 < rin" "0 < rout"
    and "x * (x + 4 * rin) \<le> 6 * 10 ^ 18 * rin"
  shows "\<exists>out. getAmountOut (Finite x) (Finite rin) (Finite rout) f = Inr (Finite out) \<and>
     (1 \<le> x \<or> x \<le> 6 * 10 ^ 18 * rin \<longrightarrow> out < rout) \<and>
     (out < rout \<longrightarrow>
        (\<exists>res. getAmountIn (Finite out) (Finite rin) (Finite rout) f = Inr (Finite res) \<and>
           x \<le> res))"
proof -
  define out where "out = swap_value (after_fee_value x f) rin rout"
  have f: "0 \<le> f" "f < 10000" by fact+
  have x: "0 < x" by fact
  have r: "0 < rin" "0 < rout" by fact+
  have H: "x * (x + 4 * rin) \<le> 6 * 10 ^ 18 * rin" by fact
  have c0: "0 < after_fee_value x f" by (rule after_fee_value_bounds(1) [OF f x])
  have o0: "0 < out" unfolding out_def by (rule swap_value_bounds(4) [OF c0 r])
  have v: "getAmountOut (Finite x) (Finite rin) (Finite rout) f = Inr (Finite out)"
    unfolding out_def by (rule getAmountOut_value [OF f x r])
  have b: "out < rout" if h: "1 \<le> x \<or> x \<le> 6 * 10 ^ 18 * rin"
  proof -
    have "x \<le> 6 * 10 ^ 18 * rin"
    proof (cases "1 \<le> x")
      case True
      then have "x * 1 \<le> x * (x + 4 * rin)" using x r by (intro mult_left_mono) simp_all
      then show ?thesis using H by simp
    next
      case False
      then show ?thesis using h by simp
    qed
    then show ?thesis unfolding out_def by (rule after_fee_below_reserve [OF f x _ r])
  qed
  have i: "\<exists>res. getAmountIn (Finite out) (Finite rin) (Finite rout) f = Inr (Finite res) \<and> x \<le> res"
    if h: "out < rout"
  proof -
    have "getAmountIn (Finite out) (Finite rin) (Finite rout) f
        = Inr (Finite (in_value out rin rout f))"
      by (rule getAmountIn_value [OF f(2) o0 h r(1)])
    moreover have "x \<le> in_value out rin rout f"
      by (rule roundtrip_lower [OF f x r H out_def h])
    ultimately show ?thesis by blast
  qed
  show ?thesis using v b i by blast
qed

theorem getAmountIn_covers_getAmountOut_witness:
  "(100 * (100 + 4 * 1000) \<le> 6 * 10 ^ 18 * (1000 :: rat)) \<and>
   getAmountOut (Finite 100) (Finite 1000) (Finite 2000) 30
     = Inr (Finite (18132217877602982632 / 100000000000000000)) \<and>
   (18132217877602982632 / 100000000000000000 :: rat) < 2000 \<and>
   getAmountIn (Finite (18132217877602982632 / 100000000000000000)) (Finite 1000) (Finite 2000) 30
     = Inr (Finite (10100300902708124373 / 100000000000000000)) \<and>
   (100 :: rat) \<le> 10100300902708124373 / 100000000000000000 \<and>
   (2000 * (2000 + 4 * 1000) \<le> 6 * 10 ^ 18 * (1000 :: rat)) \<and>
   getAmountOut (Finite 2000) (Finite 1000) (Finite 2000) 30
     = Inr (Finite (13319973279893119572 / 10000000000000000)) \<and>
   getAmountIn (Finite (13319973279893119572 / 10000000000000000)) (Finite 1000) (Finite 2000) 30
     = Inr (Finite (20010030090270812435 / 10000000000000000)) \<and>
   (2000 :: rat) \<le> 20010030090270812435 / 10000000000000000"
  using getAmountIn_covers_getAmountOut [of 30 100 1000 2000]
    getAmountIn_covers_getAmountOut [of 30 2000 1000 2000]
  by (simp add: math_eval round_eval)

subsection \<open>\<^verbatim>\<open>calculatePriceImpact\<close>\<close>

lemma round_half_even_le_int: "q \<le> of_int k \<Longrightarrow> round_half_even q \<le> k"
proof -
  assume q: "q \<le> of_int k"
  show ?thesis
  proof (cases "q = of_int k")
    case True
    then show ?thesis by (simp add: round_half_even_def)
  next
    case False
    then have "q < of_int k" using q by simp
    then have "\<lfloor>q\<rfloor> < k" by (simp add: floor_less_iff)
    then show ?thesis by (simp add: round_half_even_def Let_def)
  qed
qed

lemma round_half_even_nonneg: "0 \<le> q \<Longrightarrow> 0 \<le> round_half_even q"
proof -
  assume "0 \<le> q"
  then have "0 \<le> \<lfloor>q\<rfloor>" by simp
  then show ?thesis by (simp add: round_half_even_def Let_def)
qed

lemma double_pos_range:
  assumes x: "0 < x" "x \<le> 10000"
  shows "0 \<le> double_pos x" and "double_pos x \<le> 10000"
proof -
  let ?e = "max (sig_exponent 2 x) (- 1022)"
  let ?s = "(2::rat) powi (?e - 52)"
  have sp: "0 < ?s" by simp
  have "(2::rat) powi sig_exponent 2 x \<le> x" using sig_exponent_bounds [of 2 x] x by simp
  also have "x < 2 powi 14" using x by simp
  finally have "sig_exponent 2 x < 14"
    using power_int_increasing [of 14 "sig_exponent 2 x" "2::rat"]
    by (cases "sig_exponent 2 x < 14") auto
  then have e: "?e \<le> 13" by simp
  then have k: "0 \<le> 52 - ?e" by simp
  have inv: "1 / ?s = 2 powi (52 - ?e)"
    using power_int_minus_divide [of "2::rat" "?e - 52"] by simp
  also have "\<dots> = 2 ^ nat (52 - ?e)" using k by (rule power_int_nonneg_exp)
  finally have "10000 / ?s = of_int (10000 * 2 ^ nat (52 - ?e))" by simp
  moreover have "x / ?s \<le> 10000 / ?s" using x sp by (simp add: divide_right_mono)
  ultimately have "round_half_even (x / ?s) \<le> 10000 * 2 ^ nat (52 - ?e)"
    by (intro round_half_even_le_int) simp
  then have "(of_int (round_half_even (x / ?s)) :: rat) \<le> of_int (10000 * 2 ^ nat (52 - ?e))"
    by (simp only: of_int_le_iff)
  then have "of_int (round_half_even (x / ?s)) * ?s \<le> of_int (10000 * 2 ^ nat (52 - ?e)) * ?s"
    using sp by (simp only: mult_le_cancel_right_pos)
  also have "of_int (10000 * 2 ^ nat (52 - ?e)) * ?s = 10000 / ?s * ?s"
    using \<open>10000 / ?s = of_int (10000 * 2 ^ nat (52 - ?e))\<close> by simp
  also have "\<dots> = 10000" by simp
  finally show "double_pos x \<le> 10000" by (simp add: double_pos_def Let_def)
  have "0 \<le> x / ?s" using x sp by simp
  then have "0 \<le> round_half_even (x / ?s)" by (rule round_half_even_nonneg)
  then show "0 \<le> double_pos x" using sp by (simp add: double_pos_def Let_def)
qed

lemma floor_to_double_range:
  assumes x: "0 < x" "x \<le> 10000"
  shows "\<exists>n. Math_floor (to_double x) = Number (of_int n) \<and> 0 \<le> n \<and> n \<le> 10000"
proof -
  have r: "0 \<le> double_pos x" "double_pos x \<le> 10000" using double_pos_range [OF x] by simp_all
  have "double_pos x < 2 ^ 1024" using r(2) by (rule le_less_trans) simp
  then have "to_double x = Number (double_pos x)" using x by (simp add: to_double_def)
  then have "Math_floor (to_double x) = Number (of_int \<lfloor>double_pos x\<rfloor>)" by simp
  moreover have "0 \<le> \<lfloor>double_pos x\<rfloor>" using r by simp
  moreover have "\<lfloor>double_pos x\<rfloor> \<le> 10000" using r by (simp add: floor_le_iff)
  ultimately show ?thesis by blast
qed

lemma impact_decimal_range:
  assumes s: "0 < spot" "round_sd spot = spot" and e: "0 \<le> exec" "exec < spot"
  shows "0 < round_sd (round_sd (round_sd (spot - exec) / spot) * 10000)"
    and "round_sd (round_sd (round_sd (spot - exec) / spot) * 10000) \<le> 10000"
proof -
  let ?d = "round_sd (spot - exec)"
  let ?r = "round_sd (?d / spot)"
  have d0: "0 < ?d" using e by (intro round_sd_gt0) simp
  have "?d \<le> round_sd spot" using e by (intro round_sd_mono) simp
  then have d1: "?d \<le> spot" by (simp only: s(2))
  have r0: "0 < ?r" using d0 s by (intro round_sd_gt0) simp
  have "?d / spot \<le> 1" using d1 s by simp
  then have "?r \<le> round_sd 1" by (rule round_sd_mono)
  moreover have "round_sd 1 = 1" using round_sd_of_int [of 1] by simp
  ultimately have r1: "?r \<le> 1" by simp
  show "0 < round_sd (?r * 10000)" using r0 by (intro round_sd_gt0) simp
  have "round_sd (?r * 10000) \<le> round_sd 10000" using r1 by (intro round_sd_mono) simp
  moreover have "round_sd 10000 = 10000" using round_sd_of_int [of 10000] by simp
  ultimately show "round_sd (?r * 10000) \<le> 10000" by simp
qed

lemma round_half_even_ge_int: "of_int k \<le> q \<Longrightarrow> k \<le> round_half_even q"
proof -
  assume "of_int k \<le> q"
  then have "k \<le> \<lfloor>q\<rfloor>" by (simp add: le_floor_iff)
  then show ?thesis by (simp add: round_half_even_def Let_def)
qed

lemma double_pos_lower:
  assumes x: "10000 \<le> x"
  shows "10000 \<le> double_pos x"
proof -
  let ?e = "sig_exponent 2 x"
  let ?s = "(2::rat) powi (max ?e (- 1022) - 52)"
  have x0: "0 < x" using x by simp
  have sp: "0 < ?s" by simp
  have b: "(2::rat) powi ?e \<le> x" "x < 2 powi (?e + 1)"
    using sig_exponent_bounds [of 2 x] x0 by simp_all
  have "(2::rat) powi 13 \<le> x" using x by simp
  then have "(2::rat) powi 13 < 2 powi (?e + 1)" using b(2) by linarith
  then have "13 < ?e + 1"
    using power_int_increasing [of "?e + 1" 13 "2::rat"] by (cases "13 < ?e + 1") auto
  then have e: "13 \<le> ?e" by simp
  then have m: "max ?e (- 1022) = ?e" by simp
  show ?thesis
  proof (cases "?e \<le> 52")
    case True
    then have k: "0 \<le> 52 - ?e" by simp
    have inv: "1 / ?s = 2 powi (52 - ?e)"
      unfolding m using power_int_minus_divide [of "2::rat" "?e - 52"] by simp
    also have "\<dots> = 2 ^ nat (52 - ?e)" using k by (rule power_int_nonneg_exp)
    finally have i: "10000 / ?s = of_int (10000 * 2 ^ nat (52 - ?e))" by simp
    have "10000 / ?s \<le> x / ?s" using x sp by (simp add: divide_right_mono)
    then have "of_int (10000 * 2 ^ nat (52 - ?e)) \<le> x / ?s" by (simp only: i)
    then have "10000 * 2 ^ nat (52 - ?e) \<le> round_half_even (x / ?s)"
      by (rule round_half_even_ge_int)
    then have "(of_int (10000 * 2 ^ nat (52 - ?e)) :: rat) \<le> of_int (round_half_even (x / ?s))"
      by (simp only: of_int_le_iff)
    then have le: "of_int (10000 * 2 ^ nat (52 - ?e)) * ?s \<le> of_int (round_half_even (x / ?s)) * ?s"
      using sp by (simp only: mult_le_cancel_right_pos)
    have "10000 = 10000 / ?s * ?s" by simp
    also have "\<dots> = of_int (10000 * 2 ^ nat (52 - ?e)) * ?s" by (simp only: i)
    also have "\<dots> \<le> of_int (round_half_even (x / ?s)) * ?s" by (rule le)
    finally show ?thesis by (simp only: double_pos_def Let_def)
  next
    case False
    then have k: "0 \<le> ?e - 52" by simp
    have s1: "1 \<le> ?s" unfolding m using k by (simp add: one_le_power_int)
    have "(2::rat) powi ?e / ?s = 2 powi (?e - (?e - 52))"
      unfolding m by (simp add: power_int_diff)
    then have "(2::rat) powi ?e / ?s = of_int (2 ^ 52)" by simp
    moreover have "(2::rat) powi ?e / ?s \<le> x / ?s" using b(1) sp by (simp add: divide_right_mono)
    ultimately have "of_int (2 ^ 52) \<le> x / ?s" by simp
    then have "2 ^ 52 \<le> round_half_even (x / ?s)" by (rule round_half_even_ge_int)
    then have "(of_int (2 ^ 52) :: rat) \<le> of_int (round_half_even (x / ?s))"
      by (simp only: of_int_le_iff)
    then have big: "(10000 :: rat) \<le> of_int (round_half_even (x / ?s))" by simp
    have "(10000 :: rat) * 1 \<le> of_int (round_half_even (x / ?s)) * ?s"
      using big s1 by (intro mult_mono) simp_all
    then show ?thesis by (simp only: double_pos_def Let_def mult_1_right)
  qed
qed

lemma floor_to_double_lower:
  assumes x: "10000 \<le> x"
  shows "Math_floor (to_double x) = NumInfinity \<or>
    (\<exists>n. Math_floor (to_double x) = Number (of_int n) \<and> 10000 \<le> n)"
proof (cases "2 ^ 1024 \<le> double_pos x")
  case True
  then have "to_double x = NumInfinity" using x by (simp add: to_double_def)
  then show ?thesis by simp
next
  case False
  then have "to_double x = Number (double_pos x)" using x by (simp add: to_double_def)
  then have "Math_floor (to_double x) = Number (of_int \<lfloor>double_pos x\<rfloor>)" by simp
  moreover have "10000 \<le> \<lfloor>double_pos x\<rfloor>"
    using double_pos_lower [OF x] by (simp add: le_floor_iff)
  ultimately show ?thesis by blast
qed

lemma impact_decimal_lower:
  assumes s: "0 < spot" "round_sd spot = spot" and e: "exec < 0"
  shows "10000 \<le> round_sd (round_sd (round_sd (spot - exec) / spot) * 10000)"
proof -
  let ?d = "round_sd (spot - exec)"
  let ?r = "round_sd (?d / spot)"
  have "round_sd spot \<le> ?d" using e by (intro round_sd_mono) simp
  then have d1: "spot \<le> ?d" by (simp only: s(2))
  have "1 \<le> ?d / spot" using d1 s by simp
  then have "round_sd 1 \<le> ?r" by (rule round_sd_mono)
  moreover have "round_sd 1 = 1" using round_sd_of_int [of 1] by simp
  ultimately have r1: "1 \<le> ?r" by simp
  have "round_sd 10000 \<le> round_sd (?r * 10000)" using r1 by (intro round_sd_mono) simp
  moreover have "round_sd 10000 = 10000" using round_sd_of_int [of 10000] by simp
  ultimately show ?thesis by simp
qed

text \<open>
  Claim C3, as stated, fails: the function does not clamp. With the input amount 1, the
  output amount \<open>-1\<close> and both reserves 1 the execution price is \<open>-1\<close>, the spot price is
  1, and the result is 20000. With the input amount 0 the execution price is no number:
  for the output amount 0 it is \<^verbatim>\<open>NaN\<close> and so is the result, for the output amount \<open>-1\<close>
  it is \<^verbatim>\<open>-Infinity\<close> and the result is \<^verbatim>\<open>Infinity\<close>.
\<close>

theorem calculatePriceImpact_above_range:
  "calculatePriceImpact (Finite 1) (Finite (- 1)) (Finite 1) (Finite 1) = Number 20000 \<and>
   calculatePriceImpact (Finite 0) (Finite 0) (Finite 1) (Finite 1) = NumNaN \<and>
   calculatePriceImpact (Finite 0) (Finite (- 1)) (Finite 1) (Finite 1) = NumInfinity"
  by (simp add: number_eval math_eval round_eval)

lemma calculatePriceImpact_no_reserve:
  "rin \<le> 0 \<or> rout \<le> 0 \<Longrightarrow>
   calculatePriceImpact x y (Finite rin) (Finite rout) = Number 10000"
  by (auto simp: calculatePriceImpact_def lte_d_def eq_d_def BASIS_POINTS_def)

lemma calculatePriceImpact_value:
  assumes "0 < rin" "0 < rout" "ain \<noteq> 0"
  shows "calculatePriceImpact (Finite ain) (Finite aout) (Finite rin) (Finite rout) =
    (if round_sd (rout / rin) \<le> round_sd (aout / ain) then Number 0
     else Math_floor (to_double (round_sd (round_sd
            (round_sd (round_sd (rout / rin) - round_sd (aout / ain)) / round_sd (rout / rin))
            * 10000))))"
proof -
  have "0 < round_sd (rout / rin)" using assms by (intro round_sd_gt0) simp
  then have nz: "round_sd (rout / rin) \<noteq> 0" by simp
  show ?thesis
    using assms nz
    by (auto simp: calculatePriceImpact_def lte_d_def gte_d_def eq_d_def BASIS_POINTS_def
        of_bp_def minus_d_def Let_def)
qed

lemma calculatePriceImpact_range:
  assumes "0 < rin" "0 < rout" "ain \<noteq> 0" "0 \<le> aout / ain"
  shows "\<exists>n. calculatePriceImpact (Finite ain) (Finite aout) (Finite rin) (Finite rout)
            = Number (of_int n) \<and> 0 \<le> n \<and> n \<le> 10000"
proof -
  define spot where "spot = round_sd (rout / rin)"
  define exec where "exec = round_sd (aout / ain)"
  have v: "calculatePriceImpact (Finite ain) (Finite aout) (Finite rin) (Finite rout) =
      (if spot \<le> exec then Number 0
       else Math_floor (to_double (round_sd (round_sd (round_sd (spot - exec) / spot) * 10000))))"
    unfolding spot_def exec_def by (rule calculatePriceImpact_value [OF assms(1,2,3)])
  have s: "0 < spot" "round_sd spot = spot"
    using assms by (simp_all add: spot_def round_sd_gt0 round_sd_idem)
  have e: "0 \<le> exec" using assms(4) unfolding exec_def by (rule round_sd_ge0)
  show ?thesis
  proof (cases "spot \<le> exec")
    case True
    then have "calculatePriceImpact (Finite ain) (Finite aout) (Finite rin) (Finite rout)
        = Number (of_int 0)" using v by simp
    then show ?thesis by (intro exI [of _ 0]) simp
  next
    case False
    then have lt: "exec < spot" by simp
    show ?thesis
      using v False floor_to_double_range [OF impact_decimal_range [OF s e lt]] by simp
  qed
qed

lemma calculatePriceImpact_beyond:
  assumes "0 < rin" "0 < rout" "ain \<noteq> 0" "aout / ain < 0"
  shows "calculatePriceImpact (Finite ain) (Finite aout) (Finite rin) (Finite rout) = NumInfinity \<or>
    (\<exists>n. calculatePriceImpact (Finite ain) (Finite aout) (Finite rin) (Finite rout)
            = Number (of_int n) \<and> 10000 \<le> n)"
proof -
  define spot where "spot = round_sd (rout / rin)"
  define exec where "exec = round_sd (aout / ain)"
  have v: "calculatePriceImpact (Finite ain) (Finite aout) (Finite rin) (Finite rout) =
      (if spot \<le> exec then Number 0
       else Math_floor (to_double (round_sd (round_sd (round_sd (spot - exec) / spot) * 10000))))"
    unfolding spot_def exec_def by (rule calculatePriceImpact_value [OF assms(1,2,3)])
  have s: "0 < spot" "round_sd spot = spot"
    using assms by (simp_all add: spot_def round_sd_gt0 round_sd_idem)
  have e: "exec < 0" using assms(4) unfolding exec_def by (rule round_sd_lt0)
  have "\<not> spot \<le> exec" using s e by simp
  then show ?thesis
    using v floor_to_double_lower [OF impact_decimal_lower [OF s e]] by simp
qed

text \<open>
  Claim C3, amended. If either reserve is zero (or negative) the result is 10000.
  Otherwise, for an input amount other than zero, with
  \<open>spotPrice = reserveOut / reserveIn\<close> and \<open>executionPrice = amountOut / amountIn\<close> (each a
  decimal division, rounded to 20 significant digits): the result is 0 when
  \<open>executionPrice \<ge> spotPrice\<close> and otherwise \<^verbatim>\<open>Math.floor\<close> of the number nearest to the
  decimal value \<open>((spotPrice - executionPrice) / spotPrice) * 10000\<close>. When the quotient
  of the amounts is not negative (amounts of the same sign, or a zero output) the result
  is an integer between 0 and 10000. When it is negative there is no clamp: the result is
  an integer of at least 10000, or \<^verbatim>\<open>Infinity\<close>.
\<close>

theorem calculatePriceImpact_cases:
  "(rin \<le> 0 \<or> rout \<le> 0 \<longrightarrow>
      calculatePriceImpact (Finite ain) (Finite aout) (Finite rin) (Finite rout) = Number 10000) \<and>
   (0 < rin \<and> 0 < rout \<and> ain \<noteq> 0 \<longrightarrow>
      (let spotPrice = round_sd (rout / rin); executionPrice = round_sd (aout / ain)
       in calculatePriceImpact (Finite ain) (Finite aout) (Finite rin) (Finite rout) =
          (if spotPrice \<le> executionPrice then Number 0
           else Math_floor (to_double (round_sd (round_sd
                  (round_sd (spotPrice - executionPrice) / spotPrice) * 10000))))) \<and>
      (0 \<le> aout / ain \<longrightarrow>
         (\<exists>n. calculatePriceImpact (Finite ain) (Finite aout) (Finite rin) (Finite rout)
               = Number (of_int n) \<and> 0 \<le> n \<and> n \<le> 10000)) \<and>
      (aout / ain < 0 \<longrightarrow>
         calculatePriceImpact (Finite ain) (Finite aout) (Finite rin) (Finite rout) = NumInfinity \<or>
         (\<exists>n. calculatePriceImpact (Finite ain) (Finite aout) (Finite rin) (Finite rout)
               = Number (of_int n) \<and> 10000 \<le> n)))"
proof (intro conjI impI)
  assume "rin \<le> 0 \<or> rout \<le> 0"
  then show "calculatePriceImpact (Finite ain) (Finite aout) (Finite rin) (Finite rout) = Number 10000"
    by (rule calculatePriceImpact_no_reserve)
next
  assume h: "0 < rin \<and> 0 < rout \<and> ain \<noteq> 0"
  then have r: "0 < rin" "0 < rout" "ain \<noteq> 0" by simp_all
  show "let spotPrice = round_sd (rout / rin); executionPrice = round_sd (aout / ain)
       in calculatePriceImpact (Finite ain) (Finite aout) (Finite rin) (Finite rout) =
          (if spotPrice \<le> executionPrice then Number 0
           else Math_floor (to_double (round_sd (round_sd
                  (round_sd (spotPrice - executionPrice) / spotPrice) * 10000))))"
    unfolding Let_def by (rule calculatePriceImpact_value [OF r])
next
  assume h: "0 < rin \<and> 0 < rout \<and> ain \<noteq> 0" and q: "0 \<le> aout / ain"
  from h have r: "0 < rin" "0 < rout" "ain \<noteq> 0" by simp_all
  show "\<exists>n. calculatePriceImpact (Finite ain) (Finite aout) (Finite rin) (Finite rout)
            = Number (of_int n) \<and> 0 \<le> n \<and> n \<le> 10000"
    by (rule calculatePriceImpact_range [OF r q])
next
  assume h: "0 < rin \<and> 0 < rout \<and> ain \<noteq> 0" and q: "aout / ain < 0"
  from h have r: "0 < rin" "0 < rout" "ain \<noteq> 0" by simp_all
  show "calculatePriceImpact (Finite ain) (Finite aout) (Finite rin) (Finite rout) = NumInfinity \<or>
    (\<exists>n. calculatePriceImpact (Finite ain) (Finite aout) (Finite rin) (Finite rout)
            = Number (of_int n) \<and> 10000 \<le> n)"
    by (rule calculatePriceImpact_beyond [OF r q])
qed

theorem calculatePriceImpact_cases_witness:
  "calculatePriceImpact (Finite 100) (Finite (18132217877602982632 / 100000000000000000))
     (Finite 0) (Finite 2000) = Number 10000 \<and>
   calculatePriceImpact (Finite 100) (Finite (18132217877602982632 / 100000000000000000))
     (Finite 1000) (Finite 2000) = Number 933 \<and>
   calculatePriceImpact (Finite 100) (Finite 300) (Finite 1000) (Finite 2000) = Number 0 \<and>
   calculatePriceImpact (Finite (- 1)) (Finite (- 1)) (Finite 1) (Finite 1) = Number 0 \<and>
   calculatePriceImpact (Finite 2) (Finite (- 1)) (Finite 1) (Finite 1) = Number 15000"
  using calculatePriceImpact_cases [of 0 2000 100 "18132217877602982632 / 100000000000000000"]
    calculatePriceImpact_cases [of 1000 2000 100 "18132217877602982632 / 100000000000000000"]
    calculatePriceImpact_cases [of 1000 2000 100 300]
    calculatePriceImpact_cases [of 1 1 "- 1" "- 1"]
    calculatePriceImpact_cases [of 1 1 2 "- 1"]
  by (simp add: number_eval math_eval round_eval)

subsection \<open>The backend's \<^verbatim>\<open>calculatePriceImpact\<close>\<close>

text \<open>
  \<^verbatim>\<open>PoolService.calculatePriceImpact\<close> is the same computation on the output that
  \<^verbatim>\<open>PoolService.calculateOutput\<close> gives. That output is never negative for a fee rate of
  at most 10000 basis points, so the price impact is an integer between 0 and 10000
  whenever the function returns.
\<close>

lemma PoolService_calculatePriceImpact_eq:
  "PoolService_calculatePriceImpact p coinIn x =
     (let isA2B = (coin_type (coinA p) = coinIn);
          reserveIn = (if isA2B then reserveA p else reserveB p);
          reserveOut = (if isA2B then reserveB p else reserveA p)
      in if lte_d reserveIn (Finite 0) \<or> lte_d reserveOut (Finite 0) then Inr (Number 10000)
         else case calculateOutput p coinIn x of
                Inl error \<Rightarrow> Inl error
              | Inr y \<Rightarrow> Inr (calculatePriceImpact x y reserveIn reserveOut))"
  by (simp add: PoolService_calculatePriceImpact_def calculatePriceImpact_def Let_def
      of_bp_def BASIS_POINTS_def split: sum.splits)

lemma swap_output_nonneg:
  assumes "0 < x" "0 < rin" "0 < rout" "0 \<le> f" "f \<le> 10000"
  shows "0 \<le> round_sd (round_sd (round_sd (x * round_sd (1 + - round_sd (of_int f / 10000))) * rout)
      / round_sd (rin + round_sd (x * round_sd (1 + - round_sd (of_int f / 10000)))))"
proof -
  let ?r = "round_sd (of_int f / 10000)"
  let ?w = "round_sd (x * round_sd (1 + - ?r))"
  have "of_int f / 10000 \<le> (1::rat)" using assms by simp
  then have "?r \<le> round_sd 1" by (rule round_sd_mono)
  moreover have "round_sd 1 = 1" using round_sd_of_int [of 1] by simp
  ultimately have "0 \<le> 1 + - ?r" by simp
  then have "0 \<le> round_sd (1 + - ?r)" by (rule round_sd_ge0)
  then have "0 \<le> x * round_sd (1 + - ?r)" using assms by simp
  then have w: "0 \<le> ?w" by (rule round_sd_ge0)
  then have "0 \<le> ?w * rout" using assms by simp
  then have n: "0 \<le> round_sd (?w * rout)" by (rule round_sd_ge0)
  have "0 \<le> rin + ?w" using w assms by simp
  then have d: "0 \<le> round_sd (rin + ?w)" by (rule round_sd_ge0)
  show ?thesis using n d by (intro round_sd_ge0) simp
qed

lemma PoolService_calculatePriceImpact_range:
  assumes p: "reserveA p = Finite ra" "reserveB p = Finite rb" "0 \<le> feeRate p" "feeRate p \<le> 10000"
    and x: "0 < x"
  shows "\<exists>n. PoolService_calculatePriceImpact p coinIn (Finite x) = Inr (Number (of_int n))
     \<and> 0 \<le> n \<and> n \<le> 10000"
proof -
  define rin where "rin = (if coin_type (coinA p) = coinIn then ra else rb)"
  define rout where "rout = (if coin_type (coinA p) = coinIn then rb else ra)"
  have sel: "(if coin_type (coinA p) = coinIn then reserveA p else reserveB p) = Finite rin"
    "(if coin_type (coinA p) = coinIn then reserveB p else reserveA p) = Finite rout"
    using p by (simp_all add: rin_def rout_def)
  show ?thesis
  proof (cases "0 < rin \<and> 0 < rout")
    case False
    then have "PoolService_calculatePriceImpact p coinIn (Finite x) = Inr (Number (of_int 10000))"
      unfolding PoolService_calculatePriceImpact_eq Let_def sel
      by (auto simp: lte_d_def eq_d_def)
    then show ?thesis by (intro exI [of _ 10000]) simp
  next
    case True
    define y where "y = round_sd (round_sd (round_sd (x * round_sd (1 + - round_sd (of_int (feeRate p) / 10000))) * rout)
      / round_sd (rin + round_sd (x * round_sd (1 + - round_sd (of_int (feeRate p) / 10000)))))"
    have y: "0 \<le> y" unfolding y_def using x True p(3,4) by (intro swap_output_nonneg) simp_all
    have "0 \<le> round_sd (x * round_sd (1 + - round_sd (of_int (feeRate p) / 10000)))"
    proof -
      have "of_int (feeRate p) / 10000 \<le> (1::rat)" using p by simp
      then have "round_sd (of_int (feeRate p) / 10000) \<le> round_sd 1" by (rule round_sd_mono)
      moreover have "round_sd 1 = 1" using round_sd_of_int [of 1] by simp
      ultimately have "0 \<le> 1 + - round_sd (of_int (feeRate p) / 10000)" by simp
      then have "0 \<le> round_sd (1 + - round_sd (of_int (feeRate p) / 10000))" by (rule round_sd_ge0)
      then have "0 \<le> x * round_sd (1 + - round_sd (of_int (feeRate p) / 10000))" using x by simp
      then show ?thesis by (rule round_sd_ge0)
    qed
    then have "0 < rin + round_sd (x * round_sd (1 + - round_sd (of_int (feeRate p) / 10000)))"
      using True by simp
    then have dz: "round_sd (rin + round_sd (x * round_sd (1 + - round_sd (of_int (feeRate p) / 10000)))) \<noteq> 0"
      using round_sd_gt0 by fastforce
    have out: "calculateOutput p coinIn (Finite x) = Inr (Finite y)"
      unfolding calculateOutput_def Let_def sel
      using x True dz by (simp add: lte_d_def eq_d_def of_bp_def minus_d_def y_def)
    have eq: "PoolService_calculatePriceImpact p coinIn (Finite x)
        = Inr (calculatePriceImpact (Finite x) (Finite y) (Finite rin) (Finite rout))"
      unfolding PoolService_calculatePriceImpact_eq Let_def sel out
      using True by (simp add: lte_d_def eq_d_def)
    have "0 \<le> y / x" using y x by simp
    from calculatePriceImpact_range [OF _ _ _ this, of rin rout] True x
    show ?thesis unfolding eq by simp
  qed
qed

section \<open>The pool cache\<close>

lemma getPairKey_commute: "getPairKey a b = getPairKey b a"
  by (auto simp: getPairKey_def)

text \<open>
  Claim C8. For all coin identifiers \<open>a\<close>, \<open>b\<close> and every state of the cache,
  \<^verbatim>\<open>getPoolsForPair(a, b)\<close> and \<^verbatim>\<open>getPoolsForPair(b, a)\<close> return the same pool list: the
  lookup goes through the pair key, which puts the smaller identifier first.
\<close>

theorem getPoolsForPair_symmetric: "getPoolsForPair s a b = getPoolsForPair s b a"
  by (simp add: getPoolsForPair_def getPairKey_commute [of a b])

subsection \<open>What a refresh publishes\<close>

lemma update_fresh: "k \<notin> fst ` set al \<Longrightarrow> AList.update k v al = al @ [(k, v)]"
  by (induction al) auto

lemma pools_index_pool: "pools (index_pool s p) = AList.update (poolAddress p) p (pools s)"
  by (simp add: index_pool_def Let_def)

lemma pools_foldl_fresh:
  "distinct (map fst (pools s) @ map poolAddress ps) \<Longrightarrow>
   pools (foldl index_pool s ps) = pools s @ map (\<lambda>p. (poolAddress p, p)) ps"
proof (induction ps arbitrary: s)
  case Nil
  then show ?case by simp
next
  case (Cons p ps)
  have fresh: "poolAddress p \<notin> fst ` set (pools s)" using Cons.prems by auto
  have step: "pools (index_pool s p) = pools s @ [(poolAddress p, p)]"
    by (simp add: pools_index_pool update_fresh [OF fresh])
  have "distinct (map fst (pools (index_pool s p)) @ map poolAddress ps)"
    using Cons.prems by (auto simp: step)
  from Cons.IH [OF this] show ?case by (simp add: step)
qed

lemma bucket_index_pool:
  "bucket (index_pool s p) k = (if pair_of p = k then bucket s k @ [p] else bucket s k)"
  by (auto simp: bucket_def index_pool_def pair_of_def Let_def update_conv' split: option.splits)

lemma bucket_foldl:
  "bucket (foldl index_pool s ps) k = bucket s k @ filter (\<lambda>p. pair_of p = k) ps"
  by (induction ps arbitrary: s) (simp_all add: bucket_index_pool)

lemma getAllPools_publish:
  "distinct (map poolAddress ps) \<Longrightarrow> getAllPools (publish ps now s) = ps"
  using pools_foldl_fresh [of "s\<lparr>pools := [], poolsByPair := []\<rparr>" ps]
  by (simp add: getAllPools_def publish_def comp_def)

lemma poolCount_publish:
  "distinct (map poolAddress ps) \<Longrightarrow> poolCount (getHealthStatus (publish ps now s) t) = length ps"
  using pools_foldl_fresh [of "s\<lparr>pools := [], poolsByPair := []\<rparr>" ps]
  by (simp add: getHealthStatus_def publish_def Let_def)

lemma getPoolsForPair_publish:
  "getPoolsForPair (publish ps now s) a b = filter (\<lambda>p. pair_of p = getPairKey a b) ps"
  using bucket_foldl [of "s\<lparr>pools := [], poolsByPair := []\<rparr>" ps "getPairKey a b"]
  by (simp add: getPoolsForPair_def publish_def bucket_def)

text \<open>
  Claim C6. When the fetch of one provider fails and the two others return the pool
  lists \<open>ps1\<close> and \<open>ps2\<close>, the refresh completes and publishes exactly these pools: all
  of them are returned by \<^verbatim>\<open>getAllPools\<close>, each is found under its pair, and the pool count
  of the health status is their number. Pool addresses are unique identifiers (the map
  \<^verbatim>\<open>pools\<close> is keyed by them), which is the second assumption.
\<close>

theorem refresh_survives_provider_failure:
  assumes "(cetus, pancake, liquidswap) \<in>
      {(Inl e, Inr ps1, Inr ps2), (Inr ps1, Inl e, Inr ps2), (Inr ps1, Inr ps2, Inl e)}"
    and "distinct (map poolAddress (ps1 @ ps2))"
  shows "getAllPools (refreshAllPools cetus pancake liquidswap now s) = ps1 @ ps2 \<and>
    poolCount (getHealthStatus (refreshAllPools cetus pancake liquidswap now s) t)
      = length ps1 + length ps2 \<and>
    getPoolsForPair (refreshAllPools cetus pancake liquidswap now s) a b
      = filter (\<lambda>p. getPairKey (coin_type (coinA p)) (coin_type (coinB p)) = getPairKey a b)
          (ps1 @ ps2)"
proof -
  have r: "refreshAllPools cetus pancake liquidswap now s = publish (ps1 @ ps2) now s"
    using assms(1)
    by (auto simp: refreshAllPools_def fetchCetusPools_def fetchPancakePools_def
        fetchLiquidSwapPools_def)
  show ?thesis
    unfolding r
    using getAllPools_publish [OF assms(2)] poolCount_publish [OF assms(2)]
      getPoolsForPair_publish [of "ps1 @ ps2" now s a b]
    by (simp add: pair_of_def)
qed

theorem refresh_survives_provider_failure_witness:
  "getAllPools (refreshAllPools (Inr (mockPools 7)) (Inl (FetchError ''timeout''))
      (Inr [liquidswap_pool]) 9 empty_service) = mockPools 7 @ [liquidswap_pool] \<and>
   poolCount (getHealthStatus (refreshAllPools (Inr (mockPools 7)) (Inl (FetchError ''timeout''))
      (Inr [liquidswap_pool]) 9 empty_service) 10) = 2 \<and>
   getPoolsForPair (refreshAllPools (Inr (mockPools 7)) (Inl (FetchError ''timeout''))
      (Inr [liquidswap_pool]) 9 empty_service)
      ''0xf22bede237a07e121b56d91a491eb7bcdfd1f5907926a9e58338f964a01b17fa::asset::USDC''
      ''0x1::aptos_coin::AptosCoin'' = mockPools 7 @ [liquidswap_pool]"
  using refresh_survives_provider_failure [of "Inr (mockPools 7)" "Inl (FetchError ''timeout'')"
      "Inr [liquidswap_pool]" "FetchError ''timeout''" "mockPools 7" "[liquidswap_pool]"
      9 empty_service 10
      "''0xf22bede237a07e121b56d91a491eb7bcdfd1f5907926a9e58338f964a01b17fa::asset::USDC''"
      "''0x1::aptos_coin::AptosCoin''"]
  by (simp add: mockPools_def liquidswap_pool_def getPairKey_def)

subsection \<open>Reads during a refresh\<close>

lemma refresh_steps_total:
  "(refresh_step c p l now ^^ 4) (Start, s) = (Done, refreshAllPools c p l now s)"
  by (simp add: numeral_eq_Suc refreshAllPools_def)


lemma observe_unchanged:
  "length (filter (\<lambda>e. e = Resume) es) < segments_left t \<Longrightarrow>
   observe c p l now es (t, s) = map (read_cache s) (reads es)"
proof (induction es arbitrary: t)
  case Nil
  then show ?case by (simp add: reads_def)
next
  case (Cons ev es)
  show ?case
  proof (cases ev)
    case Resume
    then have k: "Suc (length (filter (\<lambda>e. e = Resume) es)) < segments_left t"
      using Cons.prems by simp
    then obtain t' where t': "refresh_step c p l now (t, s) = (t', s)"
      "length (filter (\<lambda>e. e = Resume) es) < segments_left t'"
      by (cases t) auto
    show ?thesis using Cons.IH [OF t'(2)] Resume t'(1) by (simp add: reads_def)
  next
    case (Read q)
    then have "length (filter (\<lambda>e. e = Resume) es) < segments_left t" using Cons.prems by simp
    from Cons.IH [OF this] show ?thesis using Read by (simp add: reads_def)
  qed
qed

text \<open>
  Until the fourth resumption, the one that runs the last segment, every read returns
  what it returns on the old snapshot; after it, what it returns on the new one.
\<close>

lemma reads_before_completion:
  "length (filter (\<lambda>e. e = Resume) es) < 4 \<Longrightarrow>
   observe c p l now es (Start, s) = map (read_cache s) (reads es)"
  by (rule observe_unchanged) simp

lemma reads_after_completion:
  "observe c p l now es (Done, s) = map (read_cache s) (reads es)"
  by (induction es) (auto simp: reads_def split: event.splits)


section \<open>Route selection\<close>

lemma sample_route_sel:
  "amountOut (sample_route out impact) = Finite out"
  "priceImpact (sample_route out impact) = impact"
  by (simp_all add: sample_route_def)

lemma length_insert_by: "length (insert_by f x xs) = Suc (length xs)"
  by (induction xs) simp_all

lemma length_foldl_insert_by:
  "length (foldl (\<lambda>sorted x. insert_by f x sorted) acc xs) = length acc + length xs"
  by (induction xs arbitrary: acc) (simp_all add: length_insert_by)

lemma length_array_sort: "length (array_sort f xs) = length xs"
  by (simp add: array_sort_def length_foldl_insert_by)

lemma alternatives_at_most_four:
  "RouterService_findBestRoute allRoutes = Some q \<Longrightarrow>
   length (alternatives q) = min 4 (length allRoutes - 1)"
  by (auto simp: RouterService_findBestRoute_def array_slice_def Let_def length_array_sort
      split: if_splits)

lemma RouterService_findBestRoute_none: "RouterService_findBestRoute [] = None"
  by (simp add: RouterService_findBestRoute_def)

lemma RouterService_findBestRoute_some:
  "allRoutes \<noteq> [] \<Longrightarrow>
   RouterService_findBestRoute allRoutes =
     Some \<lparr>best = hd (array_sort (compare_routes True) allRoutes),
           alternatives = take 4 (tl (array_sort (compare_routes True) allRoutes))\<rparr>"
  by (simp add: RouterService_findBestRoute_def array_slice_def Let_def drop_Suc)

text \<open>
  Two routes whose outputs differ by \<open>0.0005\<close> are ranked by price impact, not by
  output.
\<close>

lemma tie_broken_by_price_impact:
  "RouterService_findBestRoute [sample_route (1000005 / 10000) 50, sample_route 100 30] =
   Some \<lparr>best = sample_route 100 30, alternatives = [sample_route (1000005 / 10000) 50]\<rparr>"
  by (simp add: RouterService_findBestRoute_def array_sort_def array_slice_def
      compare_routes_def sample_route_sel math_eval round_eval)

text \<open>
  Claim C4. The route selector returns \<^verbatim>\<open>null\<close> for no candidates and otherwise the
  first route of the sorted candidates as best route. The claim promises up to five
  alternatives, as does the comment \<^verbatim>\<open>// Top 5 alternatives\<close> in the source; the code takes
  \<^verbatim>\<open>sortedRoutes.slice(1, 5)\<close>, the four routes at the indices 1 to 4. Of six candidates
  with the outputs 1 to 6 the route with output 1 is ranked sixth and is dropped, although
  it is the fifth of the remaining routes.
\<close>

theorem RouterService_findBestRoute_four_alternatives:
  "RouterService_findBestRoute
     [sample_route 1 0, sample_route 2 0, sample_route 3 0, sample_route 4 0,
      sample_route 5 0, sample_route 6 0] =
   Some \<lparr>best = sample_route 6 0,
         alternatives = [sample_route 5 0, sample_route 4 0, sample_route 3 0, sample_route 2 0]\<rparr>"
  by (simp add: RouterService_findBestRoute_def array_sort_def array_slice_def
      compare_routes_def sample_route_sel math_eval round_eval)

text \<open>
  Claim C9. \<^verbatim>\<open>MathUtils.findBestRoute\<close> sorts the caller's array in place
  (\<^verbatim>\<open>const sorted = routes.sort(...)\<close>): called with two routes of which the second has the
  larger output, it returns the second and leaves the array with the two routes swapped.
\<close>

theorem MathUtils_findBestRoute_reorders_argument:
  "MathUtils_findBestRoute
     [\<lparr>amountOut = Finite 1, priceImpact = 0\<rparr>, \<lparr>amountOut = Finite 2, priceImpact = 0\<rparr>] True =
   (Some \<lparr>amountOut = Finite 2, priceImpact = 0\<rparr>,
    [\<lparr>amountOut = Finite 2, priceImpact = 0\<rparr>, \<lparr>amountOut = Finite 1, priceImpact = 0\<rparr>])"
  by (simp add: MathUtils_findBestRoute_def array_sort_def compare_routes_def math_eval round_eval)

section \<open>The local route search\<close>

lemma findAllRoutes_length:
  "p \<in> set (findAllRoutes coinIn coinOut graph maxHops currentPath visited) \<Longrightarrow>
   int (length p) < maxHops"
proof (induction coinIn coinOut graph maxHops currentPath visited rule: findAllRoutes.induct)
  case (1 coinIn coinOut graph maxHops currentPath visited)
  show ?case
  proof (cases "maxHops \<le> int (length currentPath)")
    case True
    then show ?thesis using "1.prems" by (subst (asm) findAllRoutes.simps) simp
  next
    case bound: False
    show ?thesis
    proof (cases "coinIn = coinOut \<and> 0 < length currentPath")
      case True
      then have "p = currentPath"
        using "1.prems" bound by (subst (asm) findAllRoutes.simps) (auto split: if_splits)
      then show ?thesis using bound by simp
    next
      case dest: False
      show ?thesis
      proof (cases "coinIn \<in> visited")
        case True
        then show ?thesis
          using "1.prems" bound dest by (subst (asm) findAllRoutes.simps) (auto split: if_splits)
      next
        case fresh: False
        obtain n where n: "n \<in> set (graph_get graph coinIn)"
          "neighbor_coinOut n \<notin> insert coinIn visited"
          "p \<in> set (findAllRoutes (neighbor_coinOut n) coinOut graph maxHops
                      (currentPath @ [n]) (insert coinIn visited))"
          using "1.prems" bound dest fresh
          by (subst (asm) findAllRoutes.simps) (auto simp: Let_def split: if_splits)
        show ?thesis
          using "1.IH" [OF bound dest fresh refl refl n(1) n(2) n(3)] .
      qed
    qed
  qed
qed

lemma findAllRoutes_bound_reached:
  "maxHops \<le> int (length currentPath) \<Longrightarrow>
   findAllRoutes coinIn coinOut graph maxHops currentPath visited = []"
  by (subst findAllRoutes.simps) simp

lemma findAllRoutes_one_hop: "findAllRoutes coinIn coinOut graph 1 [] {} = []"
  by (subst findAllRoutes.simps) (auto simp: Let_def findAllRoutes_bound_reached)

lemma buildPoolGraph_ab:
  "buildPoolGraph [ab_pool] =
     [(''A'', [\<lparr>neighbor_coinOut = ''B'', neighbor_pool = ab_pool\<rparr>]),
      (''B'', [\<lparr>neighbor_coinOut = ''A'', neighbor_pool = ab_pool\<rparr>])]"
  by (simp add: buildPoolGraph_def add_pool_def graph_push_def graph_get_def ab_pool_def Let_def)

lemma findAllRoutes_ab:
  "findAllRoutes ''A'' ''B'' (buildPoolGraph [ab_pool]) 2 [] {} =
     [[\<lparr>neighbor_coinOut = ''B'', neighbor_pool = ab_pool\<rparr>]]"
  unfolding buildPoolGraph_ab by (simp add: findAllRoutes.simps graph_get_def Let_def)

text \<open>
  Claim C10. Every path that \<^verbatim>\<open>AptosRouter.findAllRoutes\<close> returns for a hop bound
  \<open>maxHops\<close> has fewer than \<open>maxHops\<close> steps, because the bound is tested before the
  destination; with \<open>maxHops = 1\<close> the search returns no route, whatever the graph.
\<close>

theorem findAllRoutes_fewer_than_maxHops:
  "(\<forall>p \<in> set (findAllRoutes coinIn coinOut graph maxHops [] {}). int (length p) < maxHops) \<and>
   findAllRoutes coinIn coinOut graph 1 [] {} = []"
  using findAllRoutes_length findAllRoutes_one_hop by blast

theorem findAllRoutes_fewer_than_maxHops_witness:
  "findAllRoutes ''A'' ''B'' (buildPoolGraph [ab_pool]) 2 [] {} =
     [[\<lparr>neighbor_coinOut = ''B'', neighbor_pool = ab_pool\<rparr>]] \<and>
   int (length [\<lparr>neighbor_coinOut = ''B'', neighbor_pool = ab_pool\<rparr>]) < 2 \<and>
   findAllRoutes ''A'' ''B'' (buildPoolGraph [ab_pool]) 1 [] {} = []"
  using findAllRoutes_fewer_than_maxHops [of "''A''" "''B''" "buildPoolGraph [ab_pool]" 2]
    findAllRoutes_fewer_than_maxHops [of "''A''" "''B''" "buildPoolGraph [ab_pool]" 1]
  by (simp add: findAllRoutes_ab)

end
